theory Spec2Isabelle
  imports Complex_Main
begin

section \<open>The chunker (src/utils/chunker.ts)\<close>

text \<open>
  JavaScript numbers that count lines and chunks are modelled as \<open>int\<close>; strings are
  \<open>string\<close>. A file is what \<open>fs.promises.readFile(filePath, 'utf-8')\<close> gives: \<open>Some\<close>
  text, or \<open>None\<close> when the read rejects (the \<open>catch\<close> branch of \<open>chunkFile\<close>).
\<close>

record CodeChunk =
  content :: string
  filePath :: string
  chunkIndex :: int
  startLine :: int
  endLine :: int

definition newline :: char where
  "newline = CHR 0x0A"

text \<open>\<open>content.split('\n')\<close>: the segments between newline characters; never empty.\<close>

fun split_lines :: "string \<Rightarrow> string list" where
  "split_lines [] = [[]]"
| "split_lines (c # cs) =
     (if c = newline then [] # split_lines cs
      else (case split_lines cs of
              [] \<Rightarrow> [[c]]
            | l # ls \<Rightarrow> (c # l) # ls))"

text \<open>
  The \<open>for\<close> loop of \<open>chunkFile\<close>. The list argument holds \<open>lines[i..]\<close>, so the test
  \<open>i === lines.length - 1\<close> is \<open>rest = []\<close>. The remaining arguments are the loop's
  variables \<open>currentChunk\<close>, \<open>lineCount\<close>, \<open>chunkIndex\<close>, \<open>startLine\<close> and \<open>chunks\<close>.
\<close>

fun chunk_loop ::
  "string \<Rightarrow> int \<Rightarrow> string list \<Rightarrow> string \<Rightarrow> int \<Rightarrow> int \<Rightarrow> int \<Rightarrow> CodeChunk list
     \<Rightarrow> CodeChunk list" where
  "chunk_loop fp chunkSize [] currentChunk lineCount cIndex sLine chunks = chunks"
| "chunk_loop fp chunkSize (line # rest) currentChunk lineCount cIndex sLine chunks =
     (let currentChunk' = currentChunk @ line @ [newline];
          lineCount' = lineCount + 1
      in if lineCount' \<ge> chunkSize \<or> rest = [] then
           chunk_loop fp chunkSize rest [] 0 (cIndex + 1) (sLine + lineCount')
             (chunks @ [\<lparr>content = currentChunk', filePath = fp, chunkIndex = cIndex,
                          startLine = sLine, endLine = sLine + lineCount' - 1\<rparr>])
         else chunk_loop fp chunkSize rest currentChunk' lineCount' cIndex sLine chunks)"

definition chunkFile :: "string \<Rightarrow> string option \<Rightarrow> int \<Rightarrow> CodeChunk list" where
  "chunkFile fp file chunkSize =
     (case file of
        None \<Rightarrow> []
      | Some text \<Rightarrow> chunk_loop fp chunkSize (split_lines text) [] 0 0 1 [])"

text \<open>The bookkeeping of a chunk: its sequence index and its line range.\<close>

definition chunk_span :: "CodeChunk \<Rightarrow> int \<times> int \<times> int" where
  "chunk_span c = (chunkIndex c, startLine c, endLine c)"

subsection \<open>File selection and the directory walk\<close>

definition extensions :: "string list" where
  "extensions =
     [''.js'', ''.ts'', ''.jsx'', ''.tsx'', ''.py'', ''.java'', ''.go'', ''.c'', ''.cpp'', ''.h'',
      ''.hpp'', ''.cs'', ''.php'', ''.rb'', ''.swift'', ''.dart'', ''.json'', ''.yml'', ''.html'',
      ''.css'']"

definition IGNORED_DIRS :: "string list" where
  "IGNORED_DIRS =
     [''.git'', ''.svn'', ''.hg'', ''node_modules'', ''__pycache__'', ''venv'', ''.venv'', ''env'',
      ''target'', ''dist'', ''build'', ''out'', ''coverage'', ''vendor'', ''.idea'', ''.vscode'',
      ''CMakeFiles'', ''cmake-build-debug'']"

text \<open>
  \<open>String.prototype.toLowerCase\<close> on the ASCII letters. (Outside ASCII JavaScript maps
  further characters; none of them yields an extension of the allow-list, which has no
  \<open>k\<close>, the only ASCII letter that a non-ASCII character lowers to.)
\<close>

definition lower_char :: "char \<Rightarrow> char" where
  "lower_char c =
     (let n = (of_char c :: nat) in if 65 \<le> n \<and> n \<le> 90 then char_of (n + 32) else c)"

definition toLowerCase :: "string \<Rightarrow> string" where
  "toLowerCase s = map lower_char s"

text \<open>
  \<open>path.extname\<close> of Node (POSIX flavour), a library function outside the repository: the
  base name is the last segment of the path, trailing slashes dropped; the extension runs
  from the last \<open>.\<close> of the base name to its end, and is empty when the base name has no
  \<open>.\<close>, when its only \<open>.\<close> is its first character, or when the base name is \<open>..\<close>.
\<close>

definition path_basename :: "string \<Rightarrow> string" where
  "path_basename p =
     rev (takeWhile (\<lambda>c. c \<noteq> CHR ''/'') (dropWhile (\<lambda>c. c = CHR ''/'') (rev p)))"

definition extname :: "string \<Rightarrow> string" where
  "extname p =
     (let base = path_basename p;
          after_dot = rev (takeWhile (\<lambda>c. c \<noteq> CHR ''.'') (rev base));
          upto_dot = rev (dropWhile (\<lambda>c. c \<noteq> CHR ''.'') (rev base))
      in if upto_dot = [] \<or> upto_dot = ''.'' \<or> base = ''..'' then []
         else CHR ''.'' # after_dot)"

definition shouldProcessFile :: "string \<Rightarrow> bool" where
  "shouldProcessFile fp = (toLowerCase (extname fp) \<in> set extensions)"

text \<open>\<open>entry.name.startsWith('.')\<close>.\<close>

fun startsWithDot :: "string \<Rightarrow> bool" where
  "startsWithDot [] = False"
| "startsWithDot (c # cs) = (c = CHR ''.'')"

definition ignoredDirectory :: "string \<Rightarrow> bool" where
  "ignoredDirectory name = (name \<in> set IGNORED_DIRS \<or> startsWithDot name)"

text \<open>
  What \<open>fs.promises.readdir(dirPath, { withFileTypes: true })\<close> finds: files (with what
  \<open>readFile\<close> gives for them), directories (with their own listing, \<open>None\<close> when \<open>readdir\<close>
  rejects there) and entries that are neither.
\<close>

datatype dirent =
    FileEntry string "string option"
  | DirEntry string "dirent list option"
  | OtherEntry string

text \<open>The pieces of a path between its slashes (\<open>p.split('/')\<close>).\<close>

fun path_segments :: "string \<Rightarrow> string list" where
  "path_segments [] = [[]]"
| "path_segments (c # cs) =
     (if c = CHR ''/'' then [] # path_segments cs
      else (case path_segments cs of
              [] \<Rightarrow> [[c]]
            | s # ss \<Rightarrow> (c # s) # ss))"

text \<open>
  \<open>path.join\<close> of Node (POSIX flavour), a library function outside the repository: the
  non-empty arguments are put together with a slash between them and the result is
  normalised. \<open>normalizeString\<close> goes through the segments with the segments kept so far
  (last one first): an empty segment and \<open>.\<close> are dropped, \<open>..\<close> removes the segment before
  it, or is kept when there is none to remove and the path is relative. \<open>path_normalize\<close> (\<open>normalize\<close> there) puts
  the leading slash of an absolute path and a trailing slash back.
\<close>

fun normalizeString :: "bool \<Rightarrow> string list \<Rightarrow> string list \<Rightarrow> string list" where
  "normalizeString allowAboveRoot res [] = rev res"
| "normalizeString allowAboveRoot res (s # ss) =
     (if s = [] \<or> s = ''.'' then normalizeString allowAboveRoot res ss
      else if s = ''..'' then
        (case res of
           [] \<Rightarrow> normalizeString allowAboveRoot (if allowAboveRoot then [''..''] else []) ss
         | t # ts \<Rightarrow>
             if t = ''..'' then
               normalizeString allowAboveRoot (if allowAboveRoot then ''..'' # res else res) ss
             else normalizeString allowAboveRoot ts ss)
      else normalizeString allowAboveRoot (s # res) ss)"

fun join_segments :: "string list \<Rightarrow> string" where
  "join_segments [] = []"
| "join_segments [s] = s"
| "join_segments (s # t # ss) = s @ ''/'' @ join_segments (t # ss)"

definition path_normalize :: "string \<Rightarrow> string" where
  "path_normalize p =
     (if p = [] then ''.''
      else
        (let isAbsolute = (hd p = CHR ''/'');
             trailingSeparator = (last p = CHR ''/'');
             normalized = join_segments (normalizeString (\<not> isAbsolute) [] (path_segments p))
         in if normalized = [] then
              (if isAbsolute then ''/'' else if trailingSeparator then ''./'' else ''.'')
            else (if isAbsolute then ''/'' else []) @ normalized
                 @ (if trailingSeparator then ''/'' else [])))"

definition path_join :: "string \<Rightarrow> string \<Rightarrow> string" where
  "path_join dirPath name =
     (if dirPath = [] \<and> name = [] then ''.''
      else if dirPath = [] then path_normalize name
      else if name = [] then path_normalize dirPath
      else path_normalize (dirPath @ ''/'' @ name))"

text \<open>
  The body of the \<open>for (const entry of entries)\<close> loop of \<open>processDirectory\<close>, with the
  recursive call on a subdirectory written out: a listing that cannot be read is caught in
  the callee and contributes nothing.
\<close>

fun processEntry :: "int \<Rightarrow> string \<Rightarrow> dirent \<Rightarrow> CodeChunk list" where
  "processEntry chunkSize dirPath (DirEntry name listing) =
     (if name \<notin> set IGNORED_DIRS \<and> \<not> startsWithDot name then
        (case listing of
           None \<Rightarrow> []
         | Some entries \<Rightarrow>
             concat (map (processEntry chunkSize (path_join dirPath name)) entries))
      else [])"
| "processEntry chunkSize dirPath (FileEntry name file) =
     (let fullPath = path_join dirPath name
      in if shouldProcessFile fullPath then chunkFile fullPath file chunkSize else [])"
| "processEntry chunkSize dirPath (OtherEntry name) = []"

definition processDirectory :: "int \<Rightarrow> string \<Rightarrow> dirent list option \<Rightarrow> CodeChunk list" where
  "processDirectory chunkSize dirPath listing =
     (case listing of
        None \<Rightarrow> []
      | Some entries \<Rightarrow> concat (map (processEntry chunkSize dirPath) entries))"

definition walkAndChunkDirectory :: "string \<Rightarrow> dirent list option \<Rightarrow> int \<Rightarrow> CodeChunk list" where
  "walkAndChunkDirectory directoryPath listing chunkSize =
     processDirectory chunkSize directoryPath listing"

text \<open>
  The inclusion predicate in the words of the specification, for comparison with
  \<open>shouldProcessFile\<close>: the extension is allowed and no directory segment of the path is a
  configured ignored directory or starts with a dot.
\<close>

definition spec_shouldInclude :: "string \<Rightarrow> bool" where
  "spec_shouldInclude p =
     (toLowerCase (extname p) \<in> set extensions \<and>
      \<not> list_ex ignoredDirectory (butlast (path_segments p)))"

text \<open>
  The walk described from the tree instead of by recursion with a filter: the files of the
  tree are listed, in the order of the listings, each with the names of the directories that
  lead to it from the root; a file is chunked when none of these directories is ignored and
  its path passes \<open>shouldProcessFile\<close>. For comparison with \<open>walkAndChunkDirectory\<close>.
\<close>

fun tree_files :: "string list \<Rightarrow> dirent \<Rightarrow> (string list \<times> string \<times> string option) list" where
  "tree_files ds (FileEntry name file) = [(ds, name, file)]"
| "tree_files ds (DirEntry name listing) =
     (case listing of
        None \<Rightarrow> []
      | Some entries \<Rightarrow> concat (map (tree_files (ds @ [name])) entries))"
| "tree_files ds (OtherEntry name) = []"

definition listing_files :: "dirent list option \<Rightarrow> (string list \<times> string \<times> string option) list" where
  "listing_files listing =
     (case listing of
        None \<Rightarrow> []
      | Some entries \<Rightarrow> concat (map (tree_files []) entries))"

definition entry_path :: "string \<Rightarrow> string list \<Rightarrow> string \<Rightarrow> string" where
  "entry_path rootDir ds name = path_join (foldl path_join rootDir ds) name"

definition walked :: "string \<Rightarrow> string list \<times> string \<times> string option \<Rightarrow> bool" where
  "walked rootDir f =
     (case f of (ds, name, file) \<Rightarrow>
        \<not> list_ex ignoredDirectory ds \<and> shouldProcessFile (entry_path rootDir ds name))"

definition chunks_of :: "string \<Rightarrow> int \<Rightarrow> string list \<times> string \<times> string option \<Rightarrow> CodeChunk list" where
  "chunks_of rootDir chunkSize f =
     (case f of (ds, name, file) \<Rightarrow> chunkFile (entry_path rootDir ds name) file chunkSize)"

definition spec_walk :: "string \<Rightarrow> dirent list option \<Rightarrow> int \<Rightarrow> CodeChunk list" where
  "spec_walk rootDir listing chunkSize =
     concat (map (chunks_of rootDir chunkSize) (filter (walked rootDir) (listing_files listing)))"
section \<open>Errors and the working-copy manager (src/services/git.service.ts)\<close>

text \<open>
  A thrown JavaScript error, with the two fields the code reads: \<open>code\<close> and \<open>message\<close>.
  An absent or empty message is the empty string (both are falsy in \<open>message || default\<close>).
\<close>

datatype js_error = JsError (err_code: "string option") (err_message: string)

definition message_or :: "js_error \<Rightarrow> string \<Rightarrow> string" where
  "message_or e dflt = (if err_message e = [] then dflt else err_message e)"

text \<open>
  The file system as the git service sees it: the directories that exist, and the
  operations issued so far. What an operation answers is not decided by the code, so it is
  a parameter (\<open>git_env\<close>): \<open>None\<close> is success, \<open>Some e\<close> is the error thrown.
\<close>

datatype fs_op =
    Mkdir string
  | GitClone string string
  | GitCheckout string string
  | Rm string

record fs_state =
  dirs :: "string set"
  fs_log :: "fs_op list"

record git_env =
  tempDir :: string
  mkdir_result :: "string \<Rightarrow> js_error option"
  clone_result :: "string \<Rightarrow> string \<Rightarrow> js_error option"
  checkout_result :: "string \<Rightarrow> string \<Rightarrow> js_error option"
  rm_result :: "string \<Rightarrow> js_error option"

text \<open>
  \<open>cleanWorkingDirectory\<close>: \<open>fs.promises.rm(workDir, { recursive: true, force: true })\<close>
  inside its own \<open>try\<close>; a failure is logged and swallowed, and the directory stays.
\<close>

definition cleanWorkingDirectory :: "git_env \<Rightarrow> string \<Rightarrow> fs_state \<Rightarrow> fs_state" where
  "cleanWorkingDirectory g workDir s =
     (case rm_result g workDir of
        None \<Rightarrow> s\<lparr>dirs := dirs s - {workDir}, fs_log := fs_log s @ [Rm workDir]\<rparr>
      | Some e \<Rightarrow> s\<lparr>fs_log := fs_log s @ [Rm workDir]\<rparr>)"

text \<open>
  \<open>cloneRepository\<close>: \<open>mkdir\<close>, \<open>clone\<close> and, for a commit, \<open>checkout\<close>, all inside one
  \<open>try\<close>; the \<open>catch\<close> calls \<open>cleanWorkingDirectory\<close> and rethrows. \<open>if (commit)\<close>
  holds for a commit that was given and is not the empty string. (\<open>path.join\<close> also
  normalises the joined path; the directory's name plays no role below.)
\<close>

definition cloneRepository ::
  "git_env \<Rightarrow> string \<Rightarrow> string \<Rightarrow> string option \<Rightarrow> fs_state \<Rightarrow> (js_error + string) \<times> fs_state" where
  "cloneRepository g repo job commit s =
     (let workDir = path_join (tempDir g) job;
          s1 = s\<lparr>fs_log := fs_log s @ [Mkdir workDir]\<rparr>
      in case mkdir_result g workDir of
           Some e \<Rightarrow> (Inl e, cleanWorkingDirectory g workDir s1)
         | None \<Rightarrow>
            (let s2 = s1\<lparr>dirs := insert workDir (dirs s1),
                          fs_log := fs_log s1 @ [GitClone repo workDir]\<rparr>
             in case clone_result g repo workDir of
                  Some e \<Rightarrow> (Inl e, cleanWorkingDirectory g workDir s2)
                | None \<Rightarrow>
                   (case commit of
                      None \<Rightarrow> (Inr workDir, s2)
                    | Some c \<Rightarrow>
                       (if c = [] then (Inr workDir, s2)
                        else
                          (let s3 = s2\<lparr>fs_log := fs_log s2 @ [GitCheckout workDir c]\<rparr>
                           in case checkout_result g workDir c of
                                Some e \<Rightarrow> (Inl e, cleanWorkingDirectory g workDir s3)
                              | None \<Rightarrow> (Inr workDir, s3))))))"

text \<open>A git environment for the examples: every operation succeeds unless overridden.\<close>

definition example_git :: git_env where
  "example_git =
     \<lparr>tempDir = ''./work'', mkdir_result = (\<lambda>_. None), clone_result = (\<lambda>_ _. None),
      checkout_result = (\<lambda>_ _. None), rm_result = (\<lambda>_. None)\<rparr>"

definition example_fs :: fs_state where
  "example_fs = \<lparr>dirs = {''./work''}, fs_log = []\<rparr>"

section \<open>The vector-store adapter\<close>

text \<open>
  The repository holds two versions of \<open>PineconeService\<close>. The functions named as in the
  source (\<open>init\<close>, \<open>upsert\<close>, \<open>query\<close>, \<open>waitForIndexReady\<close>, \<open>processBatch\<close>, ...) are
  those of the version with per-user namespaces (src/unnamed/part_004); the functions
  prefixed \<open>svc_\<close> are those of src/services/pinecone.service.ts, which has no namespaces.
\<close>

record VectorMetadata =
  m_repoUrl :: string
  m_filePath :: string
  m_chunkIndex :: int
  m_commit :: "string option"
  m_userId :: string
  m_startLine :: int
  m_endLine :: int

record Vector =
  vec_id :: string
  vec_values :: "real list"
  vec_metadata :: VectorMetadata

record IndexModel =
  ready :: bool
  dimension :: int
  metric :: string

text \<open>
  What the adapter does that can be observed: requests to the remote service, the waits
  between polls, and the calls of \<open>logger.warn\<close> (\<open>logger.info\<close> and \<open>logger.error\<close> are
  not recorded). The remote index is the list of its records, each under its namespace;
  the default namespace is the empty string.
\<close>

datatype adapter_event =
    ListIndexes
  | CreateIndex string int string
  | DescribeIndex string
  | UpsertRequest string "Vector list"
  | QueryRequest string
  | Delay nat
  | LogWarn string

record pinecone_state =
  initialized :: bool
  store :: "(string \<times> Vector) list"
  adapter_log :: "adapter_event list"
  n_describe :: nat
  n_upsert :: nat

text \<open>
  The answers of the remote service are parameters: the answer to \<open>listIndexes\<close> and to
  \<open>createIndex\<close>, the answer to the \<open>k\<close>-th \<open>describeIndex\<close> and to the \<open>k\<close>-th upsert
  request, whether a query fails, and the score by which a query ranks records.
\<close>

record pinecone_env =
  indexName :: string
  cloud :: string
  region :: string
  listIndexes_result :: "js_error + string list"
  createIndex_result :: "js_error option"
  describeIndex_result :: "nat \<Rightarrow> js_error + IndexModel"
  upsert_result :: "nat \<Rightarrow> js_error option"
  query_error :: "js_error option"
  score :: "real list \<Rightarrow> Vector \<Rightarrow> real"

definition INDEX_DIMENSION :: int where
  "INDEX_DIMENSION = 1536"

definition INDEX_METRIC :: string where
  "INDEX_METRIC = ''cosine''"

definition MAX_RETRIES :: nat where
  "MAX_RETRIES = 12"

definition RETRY_DELAY_MS :: nat where
  "RETRY_DELAY_MS = 5000"

definition BATCH_SIZE :: nat where
  "BATCH_SIZE = 40"

text \<open>Numbers as a template literal prints them (\<open>`${n}`\<close>), for the error messages.\<close>

definition decimal_digit :: "nat \<Rightarrow> char" where
  "decimal_digit d = ''0123456789'' ! (d mod 10)"

function decimal_acc :: "nat \<Rightarrow> string \<Rightarrow> string" where
  "decimal_acc n acc =
     (if n < 10 then decimal_digit n # acc
      else decimal_acc (n div 10) (decimal_digit n # acc))"
  by pat_completeness auto
termination
  by (relation "measure fst") auto

definition decimal_of_nat :: "nat \<Rightarrow> string" where
  "decimal_of_nat n = decimal_acc n []"

definition decimal_of_int :: "int \<Rightarrow> string" where
  "decimal_of_int i = (if 0 \<le> i then decimal_of_nat (nat i) else CHR ''-'' # decimal_of_nat (nat (- i)))"

definition log_event :: "adapter_event \<Rightarrow> pinecone_state \<Rightarrow> pinecone_state" where
  "log_event ev p = p\<lparr>adapter_log := adapter_log p @ [ev]\<rparr>"

text \<open>\<open>client.describeIndex(indexName)\<close>: one request, answered by the environment.\<close>

definition describeIndex ::
  "pinecone_env \<Rightarrow> pinecone_state \<Rightarrow> (js_error + IndexModel) \<times> pinecone_state" where
  "describeIndex env p =
     (describeIndex_result env (n_describe p),
      p\<lparr>adapter_log := adapter_log p @ [DescribeIndex (indexName env)],
        n_describe := n_describe p + 1\<rparr>)"

definition validateExistingIndex ::
  "pinecone_env \<Rightarrow> IndexModel \<Rightarrow> pinecone_state \<Rightarrow> (js_error + unit) \<times> pinecone_state" where
  "validateExistingIndex env description p =
     (if dimension description \<noteq> INDEX_DIMENSION then
        (Inl (JsError None (''Index '' @ indexName env @ '' has dimension ''
                @ decimal_of_int (dimension description) @ '', expected ''
                @ decimal_of_int INDEX_DIMENSION)), p)
      else if metric description \<noteq> INDEX_METRIC then
        (Inr (), log_event (LogWarn ''Existing index has different metric. Ensure this is intended.'') p)
      else (Inr (), p))"

text \<open>
  One round of the readiness poll, shared by the two versions: \<open>describeIndex\<close> inside a
  \<open>try\<close>; the result is whether the index reported itself ready. An error whose code is
  not \<open>'404'\<close> is logged with \<open>logger.warn\<close>; an error with code \<open>'404'\<close> is not.
\<close>

definition poll_once :: "pinecone_env \<Rightarrow> pinecone_state \<Rightarrow> bool \<times> pinecone_state" where
  "poll_once env p =
     (case describeIndex env p of
        (Inr status, p1) \<Rightarrow> (ready status, p1)
      | (Inl describeError, p1) \<Rightarrow>
          (False,
           if err_code describeError \<noteq> Some ''404''
           then log_event (LogWarn ''Error describing index while waiting, retrying...'') p1
           else p1))"

function waitForIndexReady ::
  "pinecone_env \<Rightarrow> nat \<Rightarrow> pinecone_state \<Rightarrow> (js_error + unit) \<times> pinecone_state" where
  "waitForIndexReady env retries p =
     (if retries < MAX_RETRIES then
        (case poll_once env p of
           (True, p1) \<Rightarrow> (Inr (), p1)
         | (False, p1) \<Rightarrow> waitForIndexReady env (retries + 1) (log_event (Delay RETRY_DELAY_MS) p1))
      else
        (Inl (JsError None (''Index '' @ indexName env @ '' did not become ready after ''
                @ decimal_of_nat MAX_RETRIES @ '' retries'')), p))"
  by pat_completeness auto
termination
  by (relation "measure (\<lambda>(env, retries, p). MAX_RETRIES - retries)") auto

definition init :: "pinecone_env \<Rightarrow> pinecone_state \<Rightarrow> (js_error + unit) \<times> pinecone_state" where
  "init env p =
     (let p0 = log_event ListIndexes p
      in case listIndexes_result env of
           Inl e \<Rightarrow> (Inl e, p0)
         | Inr names \<Rightarrow>
            (if indexName env \<notin> set names then
               (let p1 = log_event (CreateIndex (indexName env) INDEX_DIMENSION INDEX_METRIC) p0
                in case createIndex_result env of
                     Some e \<Rightarrow> (Inl e, p1)
                   | None \<Rightarrow>
                      (case waitForIndexReady env 0 p1 of
                         (Inl e, p2) \<Rightarrow> (Inl e, p2)
                       | (Inr u, p2) \<Rightarrow> (Inr (), p2\<lparr>initialized := True\<rparr>)))
             else
               (case describeIndex env p0 of
                  (Inl e, p1) \<Rightarrow> (Inl e, p1)
                | (Inr description, p1) \<Rightarrow>
                   (case validateExistingIndex env description p1 of
                      (Inl e, p2) \<Rightarrow> (Inl e, p2)
                    | (Inr u, p2) \<Rightarrow> (Inr (), p2\<lparr>initialized := True\<rparr>)))))"

definition ensureInitialized ::
  "pinecone_env \<Rightarrow> pinecone_state \<Rightarrow> (js_error + unit) \<times> pinecone_state" where
  "ensureInitialized env p =
     (if \<not> initialized p then
        (case init env (log_event (LogWarn ''Pinecone client not initialized. Attempting initialization now...'') p) of
           (Inl e, p1) \<Rightarrow> (Inl e, p1)
         | (Inr u, p1) \<Rightarrow>
            (if \<not> initialized p1 then (Inl (JsError None ''Pinecone initialization failed''), p1)
             else (Inr (), p1)))
      else (Inr (), p))"

definition getNamespaceForUser :: "string \<Rightarrow> string" where
  "getNamespaceForUser user = ''user_'' @ user"

subsection \<open>Upsert with per-user namespaces\<close>

text \<open>
  \<open>namespace.upsert(batch)\<close> as the remote index performs it: a record replaces the record
  of the same id in the same namespace, if there is one.
\<close>

definition remote_upsert :: "string \<Rightarrow> Vector list \<Rightarrow> (string \<times> Vector) list \<Rightarrow> (string \<times> Vector) list" where
  "remote_upsert ns batch st =
     fold (\<lambda>v s. filter (\<lambda>(n, u). \<not> (n = ns \<and> vec_id u = vec_id v)) s @ [(ns, v)]) batch st"

text \<open>\<open>commit: vector.metadata.commit || ''\<close>: an absent commit becomes the empty string.\<close>

definition normalize_commit :: "Vector \<Rightarrow> Vector" where
  "normalize_commit v =
     v\<lparr>vec_metadata := (vec_metadata v)
          \<lparr>m_commit := Some (case m_commit (vec_metadata v) of None \<Rightarrow> [] | Some c \<Rightarrow> c)\<rparr>\<rparr>"

definition processBatch ::
  "pinecone_env \<Rightarrow> string \<Rightarrow> Vector list \<Rightarrow> nat \<Rightarrow> nat \<Rightarrow> nat \<Rightarrow> pinecone_state
     \<Rightarrow> (js_error + unit) \<times> pinecone_state" where
  "processBatch env ns vectors startIdx batchSize totalCount p =
     (let batch = map normalize_commit (take batchSize (drop startIdx vectors));
          p1 = p\<lparr>adapter_log := adapter_log p @ [UpsertRequest ns batch],
                  n_upsert := n_upsert p + 1\<rparr>
      in case upsert_result env (n_upsert p) of
           Some e \<Rightarrow> (Inl e, p1)
         | None \<Rightarrow> (Inr (), p1\<lparr>store := remote_upsert ns batch (store p1)\<rparr>))"

text \<open>
  The \<open>reduce\<close> that groups the vectors by \<open>metadata.userId\<close>. The accumulator is a plain
  object (\<open>{}\<close>), here the list of its own properties in insertion order. For a user id
  that names a property of \<open>Object.prototype\<close>, \<open>acc[userId]\<close> is that inherited value:
  truthy and without \<open>push\<close>, so \<open>acc[userId].push(vector)\<close> throws a \<open>TypeError\<close>.
\<close>

definition object_prototype_keys :: "string list" where
  "object_prototype_keys =
     [''constructor'', ''__defineGetter__'', ''__defineSetter__'', ''hasOwnProperty'',
      ''__lookupGetter__'', ''__lookupSetter__'', ''isPrototypeOf'', ''propertyIsEnumerable'',
      ''toString'', ''valueOf'', ''__proto__'', ''toLocaleString'']"

fun append_to_group :: "string \<Rightarrow> Vector \<Rightarrow> (string \<times> Vector list) list \<Rightarrow> (string \<times> Vector list) list" where
  "append_to_group user v [] = [(user, [v])]"
| "append_to_group user v ((k, vs) # acc) =
     (if k = user then (k, vs @ [v]) # acc else (k, vs) # append_to_group user v acc)"

definition group_step ::
  "(string \<times> Vector list) list \<Rightarrow> Vector \<Rightarrow> js_error + (string \<times> Vector list) list" where
  "group_step acc v =
     (let user = m_userId (vec_metadata v)
      in if user \<notin> set (map fst acc) \<and> user \<in> set object_prototype_keys
         then Inl (JsError None ''acc[userId].push is not a function'')
         else Inr (append_to_group user v acc))"

fun group_by_user ::
  "(string \<times> Vector list) list \<Rightarrow> Vector list \<Rightarrow> js_error + (string \<times> Vector list) list" where
  "group_by_user acc [] = Inr acc"
| "group_by_user acc (v # vs) =
     (case group_step acc v of
        Inl e \<Rightarrow> Inl e
      | Inr acc' \<Rightarrow> group_by_user acc' vs)"

text \<open>
  \<open>Object.entries\<close>: the properties whose key is an array index (a canonical decimal
  numeral below \<open>2^32 - 1\<close>) come first, in ascending numeric order; the others follow in
  insertion order.
\<close>

definition is_digit :: "char \<Rightarrow> bool" where
  "is_digit c = (48 \<le> (of_char c :: nat) \<and> (of_char c :: nat) \<le> 57)"

definition decimal_value :: "string \<Rightarrow> nat" where
  "decimal_value s = foldl (\<lambda>n c. 10 * n + (of_char c - 48)) 0 s"

definition is_array_index :: "string \<Rightarrow> bool" where
  "is_array_index s =
     (s \<noteq> [] \<and> list_all is_digit s \<and> (s = ''0'' \<or> hd s \<noteq> CHR ''0'') \<and>
      decimal_value s < 2 ^ 32 - 1)"

definition object_entries :: "(string \<times> 'a) list \<Rightarrow> (string \<times> 'a) list" where
  "object_entries obj =
     sort_key (\<lambda>(k, x). decimal_value k) (filter (\<lambda>(k, x). is_array_index k) obj)
     @ filter (\<lambda>(k, x). \<not> is_array_index k) obj"

text \<open>The inner loop \<open>for (let i = 0; i < userVectors.length; i += BATCH_SIZE)\<close>.\<close>

function upsert_batches ::
  "pinecone_env \<Rightarrow> string \<Rightarrow> Vector list \<Rightarrow> nat \<Rightarrow> pinecone_state
     \<Rightarrow> (js_error + unit) \<times> pinecone_state" where
  "upsert_batches env ns userVectors i p =
     (if i < length userVectors then
        (case processBatch env ns userVectors i BATCH_SIZE (length userVectors) p of
           (Inl e, p1) \<Rightarrow> (Inl e, p1)
         | (Inr u, p1) \<Rightarrow> upsert_batches env ns userVectors (i + BATCH_SIZE) p1)
      else (Inr (), p))"
  by pat_completeness auto
termination
  by (relation "measure (\<lambda>(env, ns, userVectors, i, p). length userVectors - i)")
     (auto simp: BATCH_SIZE_def)

text \<open>The outer loop \<open>for (const [userId, userVectors] of Object.entries(vectorsByUser))\<close>.\<close>

fun upsert_users ::
  "pinecone_env \<Rightarrow> (string \<times> Vector list) list \<Rightarrow> pinecone_state
     \<Rightarrow> (js_error + unit) \<times> pinecone_state" where
  "upsert_users env [] p = (Inr (), p)"
| "upsert_users env ((user, userVectors) # rest) p =
     (case upsert_batches env (getNamespaceForUser user) userVectors 0 p of
        (Inl e, p1) \<Rightarrow> (Inl e, p1)
      | (Inr u, p1) \<Rightarrow> upsert_users env rest p1)"

definition upsert ::
  "pinecone_env \<Rightarrow> Vector list \<Rightarrow> pinecone_state \<Rightarrow> (js_error + unit) \<times> pinecone_state" where
  "upsert env vectors p =
     (if vectors = [] then
        (Inr (), log_event (LogWarn ''No vectors provided for upserting'') p)
      else
        (case ensureInitialized env p of
           (Inl e, p1) \<Rightarrow> (Inl e, p1)
         | (Inr u, p1) \<Rightarrow>
            (case group_by_user [] vectors of
               Inl e \<Rightarrow> (Inl e, p1)
             | Inr vectorsByUser \<Rightarrow> upsert_users env (object_entries vectorsByUser) p1)))"

text \<open>
  \<open>query\<close>: one request to the user's namespace. The remote index answers with records of
  that namespace which pass the filter, the \<open>topK\<close> best by score.
\<close>

definition namespace_records :: "string \<Rightarrow> (string \<times> Vector) list \<Rightarrow> Vector list" where
  "namespace_records ns st = map snd (filter (\<lambda>(n, v). n = ns) st)"

definition remote_query ::
  "pinecone_env \<Rightarrow> string \<Rightarrow> real list \<Rightarrow> nat \<Rightarrow> (Vector \<Rightarrow> bool) \<Rightarrow> (string \<times> Vector) list
     \<Rightarrow> Vector list" where
  "remote_query env ns vector topK flt st =
     take topK (rev (sort_key (score env vector) (filter flt (namespace_records ns st))))"

definition query ::
  "pinecone_env \<Rightarrow> real list \<Rightarrow> string \<Rightarrow> nat \<Rightarrow> (Vector \<Rightarrow> bool) \<Rightarrow> pinecone_state
     \<Rightarrow> (js_error + Vector list) \<times> pinecone_state" where
  "query env vector user topK additionalFilters p =
     (case ensureInitialized env p of
        (Inl e, p1) \<Rightarrow> (Inl e, p1)
      | (Inr u, p1) \<Rightarrow>
         (let namespaceName = getNamespaceForUser user;
              p2 = log_event (QueryRequest namespaceName) p1
          in case query_error env of
               Some e \<Rightarrow> (Inl e, p2)
             | None \<Rightarrow>
                (Inr (remote_query env namespaceName vector topK additionalFilters (store p2)), p2)))"

subsection \<open>The version without namespaces (src/services/pinecone.service.ts)\<close>

text \<open>
  The \<open>while (retries < maxRetries)\<close> loop of \<open>init\<close>, which leaves by \<open>break\<close> when the
  index is ready; it returns the final value of \<open>retries\<close>.
\<close>

function svc_wait :: "pinecone_env \<Rightarrow> nat \<Rightarrow> pinecone_state \<Rightarrow> nat \<times> pinecone_state" where
  "svc_wait env retries p =
     (if retries < 12 then
        (case poll_once env p of
           (True, p1) \<Rightarrow> (retries, p1)
         | (False, p1) \<Rightarrow> svc_wait env (retries + 1) (log_event (Delay 5000) p1))
      else (retries, p))"
  by pat_completeness auto
termination
  by (relation "measure (\<lambda>(env, retries, p). 12 - retries)") auto

definition svc_init :: "pinecone_env \<Rightarrow> pinecone_state \<Rightarrow> (js_error + unit) \<times> pinecone_state" where
  "svc_init env p =
     (let p0 = log_event ListIndexes p
      in case listIndexes_result env of
           Inl e \<Rightarrow> (Inl e, p0)
         | Inr names \<Rightarrow>
            (if indexName env \<notin> set names then
               (let p1 = log_event (CreateIndex (indexName env) INDEX_DIMENSION INDEX_METRIC) p0
                in case createIndex_result env of
                     Some e \<Rightarrow> (Inl e, p1)
                   | None \<Rightarrow>
                      (case svc_wait env 0 p1 of
                         (retries, p2) \<Rightarrow>
                           (if retries = 12 then
                              (Inl (JsError None (''Index '' @ indexName env
                                      @ '' did not become ready in time.'')), p2)
                            else (Inr (), p2\<lparr>initialized := True\<rparr>))))
             else
               (case describeIndex env p0 of
                  (Inl e, p1) \<Rightarrow> (Inl e, p1)
                | (Inr description, p1) \<Rightarrow>
                   (case validateExistingIndex env description p1 of
                      (Inl e, p2) \<Rightarrow> (Inl e, p2)
                    | (Inr u, p2) \<Rightarrow> (Inr (), p2\<lparr>initialized := True\<rparr>)))))"

definition svc_ensureInitialized ::
  "string \<Rightarrow> pinecone_env \<Rightarrow> pinecone_state \<Rightarrow> (js_error + unit) \<times> pinecone_state" where
  "svc_ensureInitialized what env p =
     (if \<not> initialized p then
        (case svc_init env (log_event (LogWarn ''Pinecone client not initialized. Attempting initialization now...'') p) of
           (Inl e, p1) \<Rightarrow> (Inl e, p1)
         | (Inr u, p1) \<Rightarrow>
            (if \<not> initialized p1
             then (Inl (JsError None (''Pinecone initialization failed, cannot '' @ what @ ''.'')), p1)
             else (Inr (), p1)))
      else (Inr (), p))"

text \<open>
  The loop \<open>for (let i = 0; i < vectors.length; i += batchSize)\<close> of the \<open>upsert\<close> of this
  version: every batch goes to \<open>this.index.upsert\<close>, the index's default namespace.
\<close>

function svc_upsert_batches ::
  "pinecone_env \<Rightarrow> Vector list \<Rightarrow> nat \<Rightarrow> pinecone_state \<Rightarrow> (js_error + unit) \<times> pinecone_state" where
  "svc_upsert_batches env vectors i p =
     (if i < length vectors then
        (case processBatch env [] vectors i 40 (length vectors) p of
           (Inl e, p1) \<Rightarrow> (Inl e, p1)
         | (Inr u, p1) \<Rightarrow> svc_upsert_batches env vectors (i + 40) p1)
      else (Inr (), p))"
  by pat_completeness auto
termination
  by (relation "measure (\<lambda>(env, vectors, i, p). length vectors - i)") auto

definition svc_upsert ::
  "pinecone_env \<Rightarrow> Vector list \<Rightarrow> pinecone_state \<Rightarrow> (js_error + unit) \<times> pinecone_state" where
  "svc_upsert env vectors p =
     (case svc_ensureInitialized ''upsert'' env p of
        (Inl e, p1) \<Rightarrow> (Inl e, p1)
      | (Inr u, p1) \<Rightarrow> svc_upsert_batches env vectors 0 p1)"

definition svc_query ::
  "pinecone_env \<Rightarrow> real list \<Rightarrow> nat \<Rightarrow> (Vector \<Rightarrow> bool) \<Rightarrow> pinecone_state
     \<Rightarrow> (js_error + Vector list) \<times> pinecone_state" where
  "svc_query env vector topK flt p =
     (case svc_ensureInitialized ''query'' env p of
        (Inl e, p1) \<Rightarrow> (Inl e, p1)
      | (Inr u, p1) \<Rightarrow>
         (let p2 = log_event (QueryRequest []) p1
          in case query_error env of
               Some e \<Rightarrow> (Inl e, p2)
             | None \<Rightarrow> (Inr (remote_query env [] vector topK flt (store p2)), p2)))"

subsection \<open>What a readiness poll leaves in the log\<close>

text \<open>
  The events of the poll that receives the \<open>k\<close>-th answer of \<open>describeIndex\<close> when that
  answer is not "ready": the request, a warning unless the answer is an error with code
  \<open>'404'\<close>, and the wait.
\<close>

definition not_ready :: "pinecone_env \<Rightarrow> nat \<Rightarrow> bool" where
  "not_ready env k = (case describeIndex_result env k of Inl e \<Rightarrow> True | Inr st \<Rightarrow> \<not> ready st)"

definition poll_round_events :: "pinecone_env \<Rightarrow> nat \<Rightarrow> adapter_event list" where
  "poll_round_events env k =
     [DescribeIndex (indexName env)]
     @ (case describeIndex_result env k of
          Inl e \<Rightarrow> (if err_code e \<noteq> Some ''404''
                    then [LogWarn ''Error describing index while waiting, retrying...'']
                    else [])
        | Inr st \<Rightarrow> [])
     @ [Delay 5000]"

fun is_upsert_request :: "adapter_event \<Rightarrow> bool" where
  "is_upsert_request (UpsertRequest ns batch) = True"
| "is_upsert_request ev = False"

fun is_remote_request :: "adapter_event \<Rightarrow> bool" where
  "is_remote_request (Delay ms) = False"
| "is_remote_request (LogWarn msg) = False"
| "is_remote_request ev = True"

text \<open>An environment and an adapter state for the examples.\<close>

definition example_env :: pinecone_env where
  "example_env =
     \<lparr>indexName = ''code'', cloud = ''aws'', region = ''us-east-1'',
      listIndexes_result = Inr [], createIndex_result = None,
      describeIndex_result =
        (\<lambda>k. if k = 0 then Inl (JsError (Some ''404'') ''not found'')
             else if k = 1 then Inl (JsError (Some ''500'') ''internal error'')
             else Inr \<lparr>ready = False, dimension = 1536, metric = ''cosine''\<rparr>),
      upsert_result = (\<lambda>k. None), query_error = None, score = (\<lambda>q v. 0)\<rparr>"

definition example_env_later_ready :: pinecone_env where
  "example_env_later_ready =
     example_env\<lparr>describeIndex_result :=
       (\<lambda>k. if k < 2 then describeIndex_result example_env k
            else Inr \<lparr>ready = True, dimension = 1536, metric = ''cosine''\<rparr>)\<rparr>"

definition fresh_adapter :: pinecone_state where
  "fresh_adapter = \<lparr>initialized = False, store = [], adapter_log = [], n_describe = 0, n_upsert = 0\<rparr>"

definition example_vector :: "string \<Rightarrow> string \<Rightarrow> Vector" where
  "example_vector i user =
     \<lparr>vec_id = i, vec_values = [],
      vec_metadata = \<lparr>m_repoUrl = ''https://host/r.git'', m_filePath = ''a.ts'', m_chunkIndex = 0,
        m_commit = Some [], m_userId = user, m_startLine = 1, m_endLine = 1\<rparr>\<rparr>"

subsection \<open>Tenant isolation, as a predicate on the remote index\<close>

definition tenant_namespace :: "Vector \<Rightarrow> string" where
  "tenant_namespace v = getNamespaceForUser (m_userId (vec_metadata v))"

definition store_isolated :: "(string \<times> Vector) list \<Rightarrow> bool" where
  "store_isolated st = list_all (\<lambda>(ns, v). ns = tenant_namespace v) st"

text \<open>
  An upsert request is well-scoped for the vectors \<open>vs\<close> of a call when each record it
  carries is one of \<open>vs\<close> (with its commit normalised) and goes to its own tenant's
  namespace.
\<close>

fun request_scoped :: "Vector list \<Rightarrow> adapter_event \<Rightarrow> bool" where
  "request_scoped vs (UpsertRequest ns batch) =
     list_all (\<lambda>v. ns = tenant_namespace v \<and> v \<in> set (map normalize_commit vs)) batch"
| "request_scoped vs ev = True"

text \<open>A group of the \<open>reduce\<close> holds vectors of the call with the group's user id only.\<close>

definition group_members_ok :: "Vector list \<Rightarrow> string \<Rightarrow> Vector list \<Rightarrow> bool" where
  "group_members_ok vs user g = (\<forall>v \<in> set g. m_userId (vec_metadata v) = user \<and> v \<in> set vs)"

definition example_env_ready :: pinecone_env where
  "example_env_ready =
     example_env\<lparr>listIndexes_result := Inr [''code''],
       describeIndex_result := (\<lambda>k. Inr \<lparr>ready = True, dimension = 1536, metric = ''cosine''\<rparr>)\<rparr>"

text \<open>A vector is delivered to a namespace by a list of events when one of them is an
  upsert request to that namespace that carries the vector (with its commit normalised).\<close>

fun carries :: "string \<Rightarrow> Vector \<Rightarrow> adapter_event \<Rightarrow> bool" where
  "carries ns v (UpsertRequest n batch) = (n = ns \<and> normalize_commit v \<in> set batch)"
| "carries ns v ev = False"

definition delivered :: "string \<Rightarrow> Vector \<Rightarrow> adapter_event list \<Rightarrow> bool" where
  "delivered ns v evs = list_ex (carries ns v) evs"

text \<open>A vector is grouped when the group of its user id holds it.\<close>

definition grouped :: "(string \<times> Vector list) list \<Rightarrow> Vector \<Rightarrow> bool" where
  "grouped groups v = list_ex (\<lambda>(user, g). user = m_userId (vec_metadata v) \<and> v \<in> set g) groups"

section \<open>The job ledger and the embedding pipeline\<close>

datatype JobStatus = Queued | Running | Succeeded | Failed

record Job =
  jobId :: string
  job_userId :: string
  job_repoUrl :: string
  job_commit :: "string option"
  status :: JobStatus
  progress :: int
  error :: "string option"

text \<open>
  The ledger is a key-value store of jobs (the collection behind \<open>mongoService\<close>), with
  the calls of \<open>updateJobStatus\<close> in order. The world of a pipeline run has the ledger, the
  file system of the git service, the texts sent to the embedding service, the number of
  ids drawn from \<open>uuidv4\<close>, and the vector-store adapter.
\<close>

datatype ledger_write = UpdateJobStatus string JobStatus int "string option"

record world =
  jobs :: "string \<rightharpoonup> Job"
  ledger_log :: "ledger_write list"
  fs :: fs_state
  embed_log :: "string list"
  n_uuid :: nat
  pinecone :: pinecone_state

text \<open>
  What the run cannot decide itself: the answers of git and of the file system, the tree
  found under a working directory, the answer of the embedding service to a text, the
  ids that \<open>uuidv4\<close> draws, and the answers of the vector index.
\<close>

record pipeline_env =
  git :: git_env
  worktree :: "string \<Rightarrow> dirent list option"
  embedding :: "string \<Rightarrow> js_error + real list"
  uuid :: "nat \<Rightarrow> string"
  remote :: pinecone_env

text \<open>
  Modelled from the spec: \<open>utils/constants\<close> is not among the sources. The specification
  gives the initial checkpoint as 10, the checkpoint after chunking as 30, the final
  progress as 100 and the embedding batch size as 50.
\<close>

definition INITIAL_PROGRESS :: int where
  "INITIAL_PROGRESS = 10"

definition CHUNKING_PROGRESS :: int where
  "CHUNKING_PROGRESS = 30"

definition FINAL_PROGRESS :: int where
  "FINAL_PROGRESS = 100"

definition constants_BATCH_SIZE :: nat where
  "constants_BATCH_SIZE = 50"

text \<open>
  \<open>mongoService.updateJobStatus(jobId, status, progress = 0, error?)\<close>:
  \<open>findOneAndUpdate\<close> sets status and progress, and the error when one is given and is
  not empty; a job that is not in the store is left absent.
\<close>

definition updateJobStatus :: "string \<Rightarrow> JobStatus \<Rightarrow> int \<Rightarrow> string option \<Rightarrow> world \<Rightarrow> world" where
  "updateJobStatus job st prog err w =
     w\<lparr>jobs :=
         (case jobs w job of
            None \<Rightarrow> jobs w
          | Some j \<Rightarrow>
              (jobs w)(job \<mapsto>
                 j\<lparr>status := st, progress := prog,
                   error := (case err of
                               None \<Rightarrow> error j
                             | Some m \<Rightarrow> if m = [] then error j else Some m)\<rparr>)),
       ledger_log := ledger_log w @ [UpdateJobStatus job st prog err]\<rparr>"

text \<open>
  \<open>Math.floor(baseProgress + ((100 - baseProgress) * current) / totalCount)\<close>, on the integers
  that the pipeline passes (\<open>totalCount > 0\<close>).
\<close>

definition updateProgress :: "string \<Rightarrow> int \<Rightarrow> int \<Rightarrow> int \<Rightarrow> world \<Rightarrow> world" where
  "updateProgress job baseProgress current totalCount w =
     updateJobStatus job Running (baseProgress + ((100 - baseProgress) * current) div totalCount) None w"

definition processChunk ::
  "pipeline_env \<Rightarrow> CodeChunk \<Rightarrow> string \<Rightarrow> string \<Rightarrow> string option \<Rightarrow> world
     \<Rightarrow> (js_error + Vector) \<times> world" where
  "processChunk env chunk repo user commit w =
     (let w1 = w\<lparr>embed_log := embed_log w @ [content chunk]\<rparr>
      in case embedding env (content chunk) of
           Inl e \<Rightarrow> (Inl e, w1)
         | Inr values \<Rightarrow>
            (Inr \<lparr>vec_id = uuid env (n_uuid w1), vec_values = values,
                  vec_metadata =
                    \<lparr>m_repoUrl = repo, m_filePath = filePath chunk,
                     m_chunkIndex = chunkIndex chunk, m_commit = commit, m_userId = user,
                     m_startLine = startLine chunk, m_endLine = endLine chunk\<rparr>\<rparr>,
             w1\<lparr>n_uuid := n_uuid w1 + 1\<rparr>))"

text \<open>
  \<open>Promise.all(batch.map(chunk => processChunk(...)))\<close>: the request of every chunk of the
  batch is sent; the batch fails if one of them fails. The calls run concurrently in the
  source; the model takes them in the order of the batch and reports the first failure
  in that order.
\<close>

fun promise_all ::
  "pipeline_env \<Rightarrow> CodeChunk list \<Rightarrow> string \<Rightarrow> string \<Rightarrow> string option \<Rightarrow> world
     \<Rightarrow> (js_error + Vector list) \<times> world" where
  "promise_all env [] repo user commit w = (Inr [], w)"
| "promise_all env (chunk # batch) repo user commit w =
     (case processChunk env chunk repo user commit w of
        (r, w1) \<Rightarrow>
          (case promise_all env batch repo user commit w1 of
             (rs, w2) \<Rightarrow>
               (case r of
                  Inl e \<Rightarrow> (Inl e, w2)
                | Inr v \<Rightarrow>
                   (case rs of
                      Inl e \<Rightarrow> (Inl e, w2)
                    | Inr vs \<Rightarrow> (Inr (v # vs), w2)))))"

text \<open>The loop \<open>for (let i = 0; i < chunks.length; i += BATCH_SIZE)\<close>.\<close>

function processChunksInBatches_from ::
  "pipeline_env \<Rightarrow> CodeChunk list \<Rightarrow> string \<Rightarrow> string \<Rightarrow> string \<Rightarrow> string option \<Rightarrow> nat
     \<Rightarrow> Vector list \<Rightarrow> world \<Rightarrow> (js_error + Vector list) \<times> world" where
  "processChunksInBatches_from env chunks job repo user commit i vectors w =
     (if i < length chunks then
        (let batch = take constants_BATCH_SIZE (drop i chunks)
         in case promise_all env batch repo user commit w of
              (Inl e, w1) \<Rightarrow> (Inl e, w1)
            | (Inr batchVectors, w1) \<Rightarrow>
                processChunksInBatches_from env chunks job repo user commit
                  (i + constants_BATCH_SIZE) (vectors @ batchVectors)
                  (updateProgress job CHUNKING_PROGRESS (int (i + length batch))
                     (int (length chunks)) w1))
      else (Inr vectors, w))"
  by pat_completeness auto
termination
  by (relation "measure (\<lambda>(env, chunks, job, repo, user, commit, i, vectors, w). length chunks - i)")
     (auto simp: constants_BATCH_SIZE_def)

definition processChunksInBatches ::
  "pipeline_env \<Rightarrow> CodeChunk list \<Rightarrow> string \<Rightarrow> string \<Rightarrow> string \<Rightarrow> string option \<Rightarrow> world
     \<Rightarrow> (js_error + Vector list) \<times> world" where
  "processChunksInBatches env chunks job repo user commit w =
     processChunksInBatches_from env chunks job repo user commit 0 [] w"

definition upsertVectors :: "pipeline_env \<Rightarrow> Vector list \<Rightarrow> world \<Rightarrow> (js_error + unit) \<times> world" where
  "upsertVectors env vectors w =
     (case upsert (remote env) vectors (pinecone w) of
        (r, p1) \<Rightarrow> (r, w\<lparr>pinecone := p1\<rparr>))"

text \<open>
  The body of the \<open>try\<close> of \<open>processEmbedding\<close> (src/unnamed/part_000), from the first
  \<open>updateJobStatus\<close> on. \<open>normalizedCommit = commit || ''\<close>.
\<close>

definition embedding_steps ::
  "pipeline_env \<Rightarrow> string \<Rightarrow> string \<Rightarrow> string \<Rightarrow> string option \<Rightarrow> string \<Rightarrow> world
     \<Rightarrow> (js_error + unit) \<times> world" where
  "embedding_steps env job repo user commit workDir w =
     (let normalizedCommit = (case commit of None \<Rightarrow> [] | Some c \<Rightarrow> c);
          w1 = updateJobStatus job Running 0 None w;
          w2 = updateJobStatus job Running INITIAL_PROGRESS None w1;
          chunks = walkAndChunkDirectory workDir (worktree env workDir) 500
      in if chunks = [] then (Inr (), updateJobStatus job Succeeded FINAL_PROGRESS None w2)
         else
           (let w3 = updateJobStatus job Running CHUNKING_PROGRESS None w2
            in case processChunksInBatches env chunks job repo user (Some normalizedCommit) w3 of
                 (Inl e, w4) \<Rightarrow> (Inl e, w4)
               | (Inr vectors, w4) \<Rightarrow>
                  (case upsertVectors env vectors w4 of
                     (Inl e, w5) \<Rightarrow> (Inl e, w5)
                   | (Inr u, w5) \<Rightarrow>
                       (Inr (), updateJobStatus job Succeeded FINAL_PROGRESS None w5))))"

text \<open>
  \<open>processEmbedding\<close>: the clone is awaited before the \<open>try\<close>, so its error leaves the
  function at once. An error of the \<open>try\<close> is recorded by the \<open>catch\<close> and rethrown; the
  \<open>finally\<close> cleans the working directory in both cases.
\<close>

definition processEmbedding ::
  "pipeline_env \<Rightarrow> string \<Rightarrow> string \<Rightarrow> string \<Rightarrow> string option \<Rightarrow> world
     \<Rightarrow> (js_error + unit) \<times> world" where
  "processEmbedding env job repo user commit w =
     (case cloneRepository (git env) repo job commit (fs w) of
        (Inl e, s1) \<Rightarrow> (Inl e, w\<lparr>fs := s1\<rparr>)
      | (Inr workDir, s1) \<Rightarrow>
         (case embedding_steps env job repo user commit workDir (w\<lparr>fs := s1\<rparr>) of
            (r, w1) \<Rightarrow>
              (let w2 = (case r of
                           Inl e \<Rightarrow>
                             updateJobStatus job Failed 0
                               (Some (message_or e ''Unknown error during embedding process'')) w1
                         | Inr u \<Rightarrow> w1)
               in (r, w2\<lparr>fs := cleanWorkingDirectory (git env) workDir (fs w2)\<rparr>))))"

subsection \<open>The pipeline inside the request handler (src/unnamed/part_006)\<close>

text \<open>
  The part of \<open>router.post('/')\<close> that runs after the response was sent. Here the clone is
  inside the \<open>try\<close>; vectors are embedded one chunk at a time, with a progress update at
  every tenth chunk and at the last one; the error is recorded and not rethrown.
\<close>

fun handler_embed_loop ::
  "pipeline_env \<Rightarrow> CodeChunk list \<Rightarrow> nat \<Rightarrow> string \<Rightarrow> string \<Rightarrow> string \<Rightarrow> string option \<Rightarrow> nat
     \<Rightarrow> Vector list \<Rightarrow> world \<Rightarrow> (js_error + Vector list) \<times> world" where
  "handler_embed_loop env [] totalCount job repo user commit i vectors w = (Inr vectors, w)"
| "handler_embed_loop env (chunk # rest) totalCount job repo user commit i vectors w =
     (case processChunk env chunk repo user commit w of
        (Inl e, w1) \<Rightarrow> (Inl e, w1)
      | (Inr v, w1) \<Rightarrow>
          handler_embed_loop env rest totalCount job repo user commit (i + 1) (vectors @ [v])
            (if i mod 10 = 0 \<or> i = totalCount - 1
             then updateJobStatus job Running (40 + (60 * (int i + 1)) div int totalCount) None w1
             else w1))"

definition handler_steps ::
  "pipeline_env \<Rightarrow> string \<Rightarrow> string \<Rightarrow> string \<Rightarrow> string option \<Rightarrow> world
     \<Rightarrow> (js_error + unit) \<times> string option \<times> world" where
  "handler_steps env job repo user commit w =
     (let w1 = updateJobStatus job Running 0 None w
      in case cloneRepository (git env) repo job commit (fs w1) of
           (Inl e, s1) \<Rightarrow> (Inl e, None, w1\<lparr>fs := s1\<rparr>)
         | (Inr workDir, s1) \<Rightarrow>
            (let w2 = updateJobStatus job Running 20 None (w1\<lparr>fs := s1\<rparr>);
                 chunks = walkAndChunkDirectory workDir (worktree env workDir) 500
             in if chunks = [] then (Inr (), Some workDir, updateJobStatus job Succeeded 100 None w2)
                else
                  (let w3 = updateJobStatus job Running 40 None w2
                   in case handler_embed_loop env chunks (length chunks) job repo user commit 0 [] w3 of
                        (Inl e, w4) \<Rightarrow> (Inl e, Some workDir, w4)
                      | (Inr vectors, w4) \<Rightarrow>
                         (case upsertVectors env vectors w4 of
                            (Inl e, w5) \<Rightarrow> (Inl e, Some workDir, w5)
                          | (Inr u, w5) \<Rightarrow>
                              (Inr (), Some workDir, updateJobStatus job Succeeded 100 None w5)))))"

definition handler_pipeline ::
  "pipeline_env \<Rightarrow> string \<Rightarrow> string \<Rightarrow> string \<Rightarrow> string option \<Rightarrow> world \<Rightarrow> world" where
  "handler_pipeline env job repo user commit w =
     (case handler_steps env job repo user commit w of
        (r, workDir, w1) \<Rightarrow>
          (let w2 = (case r of
                       Inl e \<Rightarrow>
                         updateJobStatus job Failed 0
                           (Some (message_or e ''Unknown error during embedding process'')) w1
                     | Inr u \<Rightarrow> w1)
           in case workDir of
                None \<Rightarrow> w2
              | Some d \<Rightarrow> w2\<lparr>fs := cleanWorkingDirectory (git env) d (fs w2)\<rparr>))"

subsection \<open>A job, a world and an environment for the examples\<close>

definition example_job :: Job where
  "example_job =
     \<lparr>jobId = ''job1'', job_userId = ''alice'', job_repoUrl = ''https://host/r.git'',
      job_commit = None, status = Queued, progress = 0, error = None\<rparr>"

definition example_world :: world where
  "example_world =
     \<lparr>jobs = [''job1'' \<mapsto> example_job], ledger_log = [], fs = example_fs, embed_log = [],
      n_uuid = 0, pinecone = fresh_adapter\<rparr>"

definition example_pipeline_env :: pipeline_env where
  "example_pipeline_env =
     \<lparr>git = example_git,
      worktree = (\<lambda>d. Some [FileEntry ''a.ts'' (Some ''let a = 1''), FileEntry ''README.md'' (Some ''doc'')]),
      embedding = (\<lambda>t. Inr [0]),
      uuid = (\<lambda>k. ''id'' @ decimal_of_nat k),
      remote = example_env_ready\<rparr>"

definition progress_of :: "ledger_write \<Rightarrow> int" where
  "progress_of u = (case u of UpdateJobStatus job st prog err \<Rightarrow> prog)"

definition status_of :: "ledger_write \<Rightarrow> JobStatus" where
  "status_of u = (case u of UpdateJobStatus job st prog err \<Rightarrow> st)"

text \<open>
  The progress written after the batch that starts at chunk \<open>i\<close> of \<open>n\<close>: the value that
  \<open>updateProgress\<close> computes for \<open>current = min (i + BATCH_SIZE) n\<close>.
\<close>

definition batch_progress :: "nat \<Rightarrow> nat \<Rightarrow> int" where
  "batch_progress n i =
     CHUNKING_PROGRESS
       + ((100 - CHUNKING_PROGRESS) * int (min (i + constants_BATCH_SIZE) n)) div int n"

definition example_env_clone_fails :: pipeline_env where
  "example_env_clone_fails =
     example_pipeline_env\<lparr>git := example_git\<lparr>clone_result :=
        (\<lambda>repo dir. Some (JsError None ''repository not found''))\<rparr>\<rparr>"

section \<open>Properties of the chunker\<close>

lemma split_lines_nonempty: "split_lines s \<noteq> []"
  by (induction s) (auto split: list.splits)

lemma split_lines_join:
  "concat (map (\<lambda>l. l @ [newline]) (split_lines s)) = s @ [newline]"
  by (induction s) (auto split: list.splits)

lemma chunk_loop_acc:
  "chunk_loop fp cs ls cur lc ci sl acc = acc @ chunk_loop fp cs ls cur lc ci sl []"
proof (induction ls arbitrary: cur lc ci sl acc)
  case Nil
  show ?case by simp
next
  case (Cons line rest)
  show ?case
  proof (cases "lc + 1 \<ge> cs \<or> rest = []")
    case True
    let ?c = "\<lparr>content = cur @ line @ [newline], filePath = fp, chunkIndex = ci,
                startLine = sl, endLine = sl + (lc + 1) - 1\<rparr>"
    have a: "chunk_loop fp cs rest [] 0 (ci + 1) (sl + (lc + 1)) (acc @ [?c]) =
               (acc @ [?c]) @ chunk_loop fp cs rest [] 0 (ci + 1) (sl + (lc + 1)) []"
      by (rule Cons.IH)
    have b: "chunk_loop fp cs rest [] 0 (ci + 1) (sl + (lc + 1)) [?c] =
               [?c] @ chunk_loop fp cs rest [] 0 (ci + 1) (sl + (lc + 1)) []"
      by (rule Cons.IH)
    show ?thesis
      using True by (simp only: chunk_loop.simps Let_def if_True a b append_Nil append_assoc)
  next
    case False
    have a: "chunk_loop fp cs rest (cur @ line @ [newline]) (lc + 1) ci sl acc =
               acc @ chunk_loop fp cs rest (cur @ line @ [newline]) (lc + 1) ci sl []"
      by (rule Cons.IH)
    show ?thesis
      using False by (simp only: chunk_loop.simps Let_def if_False a)
  qed
qed

lemma chunk_loop_content:
  "ls \<noteq> [] \<Longrightarrow>
   concat (map content (chunk_loop fp cs ls cur lc ci sl [])) =
     cur @ concat (map (\<lambda>l. l @ [newline]) ls)"
proof (induction ls arbitrary: cur lc ci sl)
  case Nil
  then show ?case by simp
next
  case (Cons line rest)
  show ?case
  proof (cases "rest = []")
    case True
    then show ?thesis by (simp add: Let_def)
  next
    case False
    show ?thesis
    proof (cases "lc + 1 \<ge> cs")
      case True
      have "chunk_loop fp cs (line # rest) cur lc ci sl [] =
              \<lparr>content = cur @ line @ [newline], filePath = fp, chunkIndex = ci,
                startLine = sl, endLine = sl + (lc + 1) - 1\<rparr>
              # chunk_loop fp cs rest [] 0 (ci + 1) (sl + (lc + 1)) []"
        using True
          chunk_loop_acc [of fp cs rest "[]" 0 "ci + 1" "sl + (lc + 1)"
            "[\<lparr>content = cur @ line @ [newline], filePath = fp, chunkIndex = ci,
                startLine = sl, endLine = sl + (lc + 1) - 1\<rparr>]"]
        by (simp add: Let_def)
      then show ?thesis
        using Cons.IH [OF False, of "[]" 0 "ci + 1" "sl + (lc + 1)"] by simp
    next
      case nopush: False
      then show ?thesis
        using False Cons.IH [OF False, of "cur @ line @ [newline]" "lc + 1" ci sl]
        by (simp add: Let_def)
    qed
  qed
qed

text \<open>
  C10. For every file readable as text, the contents of the chunks of \<open>chunkFile\<close>,
  concatenated in order, are the file's text followed by exactly one newline: every line,
  the last one too, is stored with a trailing newline.
\<close>

theorem chunkFile_content_roundtrip:
  "concat (map content (chunkFile fp (Some txt) chunkSize)) = txt @ [newline]"
  unfolding chunkFile_def
  by (simp add: chunk_loop_content split_lines_nonempty split_lines_join)

lemma chunk_loop_push:
  "lc + 1 \<ge> cs \<or> rest = [] \<Longrightarrow>
   chunk_loop fp cs (line # rest) cur lc ci sl [] =
     \<lparr>content = cur @ line @ [newline], filePath = fp, chunkIndex = ci,
       startLine = sl, endLine = sl + lc\<rparr>
     # chunk_loop fp cs rest [] 0 (ci + 1) (sl + lc + 1) []"
  using chunk_loop_acc [of fp cs rest "[]" 0 "ci + 1" "sl + (lc + 1)"
      "[\<lparr>content = cur @ line @ [newline], filePath = fp, chunkIndex = ci,
          startLine = sl, endLine = sl + (lc + 1) - 1\<rparr>]"]
  by (simp add: Let_def add.assoc)

lemma chunk_loop_keep:
  "\<not> (lc + 1 \<ge> cs \<or> rest = []) \<Longrightarrow>
   chunk_loop fp cs (line # rest) cur lc ci sl [] =
     chunk_loop fp cs rest (cur @ line @ [newline]) (lc + 1) ci sl []"
  by (simp add: Let_def)

lemma ceil_div_step: "0 < (cs::int) \<Longrightarrow> 0 \<le> n \<Longrightarrow>
  nat ((cs + n + cs - 1) div cs) = Suc (nat ((n + cs - 1) div cs))"
proof -
  assume a: "0 < cs" "0 \<le> n"
  have e1: "cs + n + cs - 1 = cs + (n + cs - 1)" by simp
  have e2: "(cs + (n + cs - 1)) div cs = (n + cs - 1) div cs + 1"
    using a div_add_self1 [of cs "n + cs - 1"] by blast
  have "0 \<le> (n + cs - 1) div cs" using a by (simp add: pos_imp_zdiv_nonneg_iff)
  then show ?thesis unfolding e1 e2 by simp
qed

lemma ceil_div_one: "0 < (cs::int) \<Longrightarrow> 1 \<le> t \<Longrightarrow> t \<le> cs \<Longrightarrow> (t + cs - 1) div cs = 1"
proof -
  assume a: "0 < cs" "1 \<le> t" "t \<le> cs"
  have e1: "t + cs - 1 = cs + (t - 1)" by simp
  have e2: "(cs + (t - 1)) div cs = (t - 1) div cs + 1"
    using a div_add_self1 [of cs "t - 1"] by blast
  have "(t - 1) div cs = 0" using a by (simp add: div_pos_pos_trivial)
  then show ?thesis unfolding e1 e2 by simp
qed

lemma chunk_loop_spans:
  assumes "0 < cs" "0 \<le> lc" "lc < cs" "ls = [] \<longrightarrow> lc = 0"
  shows "map chunk_span (chunk_loop fp cs ls cur lc ci sl []) =
           map (\<lambda>j. (ci + int j, sl + int j * cs,
                      sl + min ((int j + 1) * cs) (lc + int (length ls)) - 1))
             [0..<nat ((lc + int (length ls) + cs - 1) div cs)]"
  using assms
proof (induction ls arbitrary: cur lc ci sl)
  case Nil
  then have "(cs - 1) div cs = 0" by (simp add: div_pos_pos_trivial)
  with Nil show ?case by simp
next
  case (Cons line rest)
  let ?T = "lc + int (length (line # rest))"
  show ?case
  proof (cases "lc + 1 \<ge> cs \<or> rest = []")
    case keep: False
    then have k: "lc + 1 < cs" "rest \<noteq> []" by auto
    have "map chunk_span (chunk_loop fp cs rest (cur @ line @ [newline]) (lc + 1) ci sl []) =
           map (\<lambda>j. (ci + int j, sl + int j * cs,
                      sl + min ((int j + 1) * cs) (lc + 1 + int (length rest)) - 1))
             [0..<nat ((lc + 1 + int (length rest) + cs - 1) div cs)]"
      using Cons.prems k by (intro Cons.IH) auto
    moreover have "lc + 1 + int (length rest) = ?T" by simp
    ultimately show ?thesis
      using chunk_loop_keep [OF keep, of fp line cur ci sl] by (simp add: add.assoc)
  next
    case push: True
    have ih: "map chunk_span (chunk_loop fp cs rest [] 0 (ci + 1) (sl + lc + 1) []) =
           map (\<lambda>j. (ci + 1 + int j, sl + lc + 1 + int j * cs,
                      sl + lc + 1 + min ((int j + 1) * cs) (0 + int (length rest)) - 1))
             [0..<nat ((0 + int (length rest) + cs - 1) div cs)]"
      using Cons.prems by (intro Cons.IH) auto
    let ?m' = "nat ((int (length rest) + cs - 1) div cs)"
    have m: "nat ((?T + cs - 1) div cs) = Suc ?m'"
    proof (cases "rest = []")
      case True
      then have "(?T + cs - 1) div cs = 1"
        using Cons.prems by (intro ceil_div_one) auto
      moreover have "(cs - 1) div cs = 0" using Cons.prems by (simp add: div_pos_pos_trivial)
      ultimately show ?thesis using True by simp
    next
      case False
      with push Cons.prems have "lc + 1 = cs" by auto
      moreover have "int (length (line # rest)) = 1 + int (length rest)" by simp
      ultimately have "?T + cs - 1 = cs + int (length rest) + cs - 1" by linarith
      then have "nat ((?T + cs - 1) div cs) = nat ((cs + int (length rest) + cs - 1) div cs)"
        by (rule arg_cong)
      also have "\<dots> = Suc ?m'"
        using Cons.prems by (intro ceil_div_step) auto
      finally show ?thesis .
    qed
    have hd: "min cs ?T = lc + 1"
      using push Cons.prems by (cases "rest = []") auto
    have tl: "\<And>j. j < ?m' \<Longrightarrow>
        (ci + 1 + int j, sl + lc + 1 + int j * cs,
           sl + lc + 1 + min ((int j + 1) * cs) (0 + int (length rest)) - 1) =
        (ci + int (Suc j), sl + int (Suc j) * cs,
           sl + min ((int (Suc j) + 1) * cs) ?T - 1)"
    proof -
      fix j assume "j < ?m'"
      then have "rest \<noteq> []" using Cons.prems by (auto simp: div_pos_pos_trivial)
      with push Cons.prems have e: "lc + 1 = cs" by auto
      then have t: "?T = cs + int (length rest)" by simp
      show "(ci + 1 + int j, sl + lc + 1 + int j * cs,
           sl + lc + 1 + min ((int j + 1) * cs) (0 + int (length rest)) - 1) =
        (ci + int (Suc j), sl + int (Suc j) * cs,
           sl + min ((int (Suc j) + 1) * cs) ?T - 1)"
        unfolding t using e by (simp add: algebra_simps min_def)
    qed
    have "map chunk_span (chunk_loop fp cs (line # rest) cur lc ci sl []) =
            (ci, sl, sl + lc) # map chunk_span (chunk_loop fp cs rest [] 0 (ci + 1) (sl + lc + 1) [])"
      using chunk_loop_push [OF push, of fp line cur ci sl] by (simp add: chunk_span_def)
    also have "\<dots> = (ci, sl, sl + lc) #
        map (\<lambda>j. (ci + int (Suc j), sl + int (Suc j) * cs,
                      sl + min ((int (Suc j) + 1) * cs) ?T - 1)) [0..<?m']"
      unfolding ih using tl by simp
    also have "\<dots> = map (\<lambda>j. (ci + int j, sl + int j * cs,
                      sl + min ((int j + 1) * cs) ?T - 1)) (0 # map Suc [0..<?m'])"
      using hd by (simp add: comp_def)
    also have "0 # map Suc [0..<?m'] = [0..<Suc ?m']"
      by (simp add: upt_conv_Cons map_Suc_upt del: upt_Suc)
    finally show ?thesis unfolding m .
  qed
qed

lemma chunkFile_spans:
  assumes "0 < cs"
  shows "map chunk_span (chunkFile fp (Some txt) cs) =
           map (\<lambda>j. (int j, int j * cs + 1, min ((int j + 1) * cs) (int (length (split_lines txt)))))
             [0..<nat ((int (length (split_lines txt)) + cs - 1) div cs)]"
  using chunk_loop_spans [of cs 0 "split_lines txt" fp "[]" 0 1] assms split_lines_nonempty [of "txt"]
  by (simp add: chunkFile_def add.commute)

lemma ceil_mult_ge: "0 < (cs::int) \<Longrightarrow> n \<le> ((n + cs - 1) div cs) * cs"
proof -
  assume a: "0 < cs"
  define d where "d = (n + cs - 1) div cs"
  have "d * cs + (n + cs - 1) mod cs = n + cs - 1" by (simp add: d_def)
  moreover have "(n + cs - 1) mod cs < cs" using a by simp
  ultimately have "n \<le> d * cs" by linarith
  then show ?thesis by (simp add: d_def)
qed

lemma ceil_mult_less: "0 < (cs::int) \<Longrightarrow> ((n + cs - 1) div cs - 1) * cs < n"
proof -
  assume a: "0 < cs"
  define d where "d = (n + cs - 1) div cs"
  have "d * cs + (n + cs - 1) mod cs = n + cs - 1" by (simp add: d_def)
  moreover have "0 \<le> (n + cs - 1) mod cs" using a by simp
  moreover have "(d - 1) * cs = d * cs - cs" by (simp add: algebra_simps)
  ultimately have "(d - 1) * cs < n" by linarith
  then show ?thesis by (simp add: d_def)
qed

text \<open>
  C2 (as the code has it). Let \<open>N\<close> be the number of segments of the file's text between
  newline characters (\<open>split_lines\<close>; at least 1, so an empty file has \<open>N = 1\<close>). For
  every chunk size \<open>C > 0\<close>, \<open>chunkFile\<close> returns exactly \<open>ceil(N / C)\<close> chunks, their
  sequence indices are \<open>0..k-1\<close>, chunk \<open>i\<close> spans the lines \<open>i * C + 1\<close> to
  \<open>min ((i + 1) * C) N\<close>, so every chunk but the last spans exactly \<open>C\<close> lines and the
  ranges are contiguous from 1 to \<open>N\<close>; a file that cannot be read gives no chunk.
\<close>

theorem chunkFile_line_ranges:
  assumes cs: "0 < chunkSize"
  shows "1 \<le> int (length (split_lines txt)) \<and>
         int (length (chunkFile fp (Some txt) chunkSize)) =
           (int (length (split_lines txt)) + chunkSize - 1) div chunkSize \<and>
         map chunkIndex (chunkFile fp (Some txt) chunkSize) =
           map int [0..<length (chunkFile fp (Some txt) chunkSize)] \<and>
         (\<forall>i < length (chunkFile fp (Some txt) chunkSize).
            startLine (chunkFile fp (Some txt) chunkSize ! i) = int i * chunkSize + 1 \<and>
            endLine (chunkFile fp (Some txt) chunkSize ! i) =
              min ((int i + 1) * chunkSize) (int (length (split_lines txt)))) \<and>
         (\<forall>i. Suc i < length (chunkFile fp (Some txt) chunkSize) \<longrightarrow>
            endLine (chunkFile fp (Some txt) chunkSize ! i)
              - startLine (chunkFile fp (Some txt) chunkSize ! i) + 1 = chunkSize \<and>
            startLine (chunkFile fp (Some txt) chunkSize ! Suc i) =
              endLine (chunkFile fp (Some txt) chunkSize ! i) + 1) \<and>
         startLine (hd (chunkFile fp (Some txt) chunkSize)) = 1 \<and>
         endLine (last (chunkFile fp (Some txt) chunkSize)) = int (length (split_lines txt)) \<and>
         chunkFile fp None chunkSize = []"
proof -
  let ?N = "int (length (split_lines txt))"
  let ?chunks = "chunkFile fp (Some txt) chunkSize"
  let ?k = "nat ((?N + chunkSize - 1) div chunkSize)"
  let ?g = "\<lambda>j. (int j, int j * chunkSize + 1, min ((int j + 1) * chunkSize) ?N)"
  have sp: "map chunk_span ?chunks = map ?g [0..<?k]"
    using cs by (rule chunkFile_spans)
  have N1: "1 \<le> ?N"
    using split_lines_nonempty [of "txt"] by (cases "split_lines txt") auto
  have kpos: "0 \<le> (?N + chunkSize - 1) div chunkSize"
    using cs N1 by (simp add: pos_imp_zdiv_nonneg_iff)
  have len: "length ?chunks = ?k"
    using arg_cong [OF sp, of length] by simp
  have k1: "1 \<le> (?N + chunkSize - 1) div chunkSize"
  proof -
    have "?N \<le> ((?N + chunkSize - 1) div chunkSize) * chunkSize"
      using cs by (rule ceil_mult_ge)
    with N1 have "0 < ((?N + chunkSize - 1) div chunkSize) * chunkSize" by linarith
    with cs have "0 < (?N + chunkSize - 1) div chunkSize"
      by (simp add: zero_less_mult_iff)
    then show ?thesis by simp
  qed
  have nth: "chunk_span (?chunks ! i) = ?g i" if "i < length ?chunks" for i
  proof -
    have "map chunk_span ?chunks ! i = map ?g [0..<?k] ! i" using sp by simp
    then show ?thesis using that len by simp
  qed
  have c2: "int (length ?chunks) = (?N + chunkSize - 1) div chunkSize"
    using len kpos by simp
  have c3: "map chunkIndex ?chunks = map int [0..<length ?chunks]"
  proof -
    have "map chunkIndex ?chunks = map fst (map chunk_span ?chunks)"
      by (simp add: chunk_span_def comp_def)
    also have "\<dots> = map int [0..<?k]" unfolding sp by (simp add: comp_def)
    finally show ?thesis using len by simp
  qed
  have c4: "\<forall>i < length ?chunks. startLine (?chunks ! i) = int i * chunkSize + 1 \<and>
            endLine (?chunks ! i) = min ((int i + 1) * chunkSize) ?N"
    using nth by (auto simp: chunk_span_def)
  have full: "(int i + 1) * chunkSize \<le> ?N" if "Suc i < length ?chunks" for i
  proof -
    have "int i + 1 \<le> (?N + chunkSize - 1) div chunkSize - 1"
      using that c2 by linarith
    then have "(int i + 1) * chunkSize \<le> ((?N + chunkSize - 1) div chunkSize - 1) * chunkSize"
      using cs by (intro mult_right_mono) auto
    also have "\<dots> < ?N" using cs by (rule ceil_mult_less)
    finally show ?thesis by simp
  qed
  have c5: "\<forall>i. Suc i < length ?chunks \<longrightarrow>
            endLine (?chunks ! i) - startLine (?chunks ! i) + 1 = chunkSize \<and>
            startLine (?chunks ! Suc i) = endLine (?chunks ! i) + 1"
  proof (intro allI impI)
    fix i assume a: "Suc i < length ?chunks"
    then have "i < length ?chunks" by simp
    with c4 have s: "startLine (?chunks ! i) = int i * chunkSize + 1"
      and e: "endLine (?chunks ! i) = min ((int i + 1) * chunkSize) ?N" by auto
    from c4 a have s': "startLine (?chunks ! Suc i) = int (Suc i) * chunkSize + 1" by blast
    have e': "endLine (?chunks ! i) = (int i + 1) * chunkSize"
      using e full [OF a] by simp
    show "endLine (?chunks ! i) - startLine (?chunks ! i) + 1 = chunkSize \<and>
            startLine (?chunks ! Suc i) = endLine (?chunks ! i) + 1"
      unfolding s s' e' by (simp add: algebra_simps)
  qed
  have ne: "?chunks \<noteq> []" using c2 k1 by auto
  have c6: "startLine (hd ?chunks) = 1"
  proof -
    have "0 < length ?chunks" using ne by simp
    with c4 have "startLine (?chunks ! 0) = int 0 * chunkSize + 1" by blast
    then show ?thesis using ne by (simp add: hd_conv_nth)
  qed
  have c7: "endLine (last ?chunks) = ?N"
  proof -
    have l: "length ?chunks - 1 < length ?chunks" using ne by simp
    with c4 have "endLine (?chunks ! (length ?chunks - 1)) =
          min ((int (length ?chunks - 1) + 1) * chunkSize) ?N" by blast
    moreover have "int (length ?chunks - 1) + 1 = (?N + chunkSize - 1) div chunkSize"
      using c2 ne by (cases ?chunks) auto
    moreover have "?N \<le> ((?N + chunkSize - 1) div chunkSize) * chunkSize"
      using cs by (rule ceil_mult_ge)
    ultimately show ?thesis using ne by (simp add: last_conv_nth)
  qed
  have c8: "chunkFile fp None chunkSize = []" by (simp add: chunkFile_def)
  show ?thesis using N1 c2 c3 c4 c5 c6 c7 c8 by blast
qed

theorem chunkFile_line_ranges_witness:
  "(0::int) < 2 \<and>
   map chunk_span (chunkFile ''a.ts'' (Some [CHR ''a'', newline, CHR ''b'', newline, CHR ''c'']) 2)
     = [(0, 1, 2), (1, 3, 3)] \<and>
   int (length (split_lines [CHR ''a'', newline, CHR ''b'', newline, CHR ''c''])) = 3"
proof -
  have h: "(0::int) < 2" by simp
  show ?thesis
    using h chunkFile_line_ranges [OF h, of "[CHR ''a'', newline, CHR ''b'', newline, CHR ''c'']" "''a.ts''"]
    by (simp add: chunkFile_def chunk_span_def newline_def)
qed

text \<open>
  C2 as stated fails on the empty file: \<open>the empty text split at newlines\<close> is one empty line, and the
  loop emits one chunk for it (lines 1 to 1, content one newline), not zero chunks.
\<close>

theorem chunkFile_empty_file_counterexample:
  "chunkFile ''empty.ts'' (Some []) 500 =
     [\<lparr>content = [newline], filePath = ''empty.ts'', chunkIndex = 0, startLine = 1, endLine = 1\<rparr>]
   \<and> length (chunkFile ''empty.ts'' (Some []) 500) \<noteq> 0"
  by (simp add: chunkFile_def)

subsection \<open>File selection and the directory walk\<close>

lemma lower_char_neq [simp]:
  "(lower_char c = CHR ''.'') = (c = CHR ''.'')" "(lower_char c = CHR ''/'') = (c = CHR ''/'')"
proof -
  have *: "lower_char c = d \<longleftrightarrow> c = d" if d: "of_char d < (65::nat)" for d
  proof (cases "65 \<le> (of_char c :: nat) \<and> (of_char c :: nat) \<le> 90")
    case True
    then have "of_char (lower_char c) = (of_char c + 32 :: nat)"
      by (simp add: lower_char_def Let_def)
    with True d show ?thesis by auto
  next
    case False
    then show ?thesis by (auto simp: lower_char_def Let_def)
  qed
  show "(lower_char c = CHR ''.'') = (c = CHR ''.'')" by (rule *) simp
  show "(lower_char c = CHR ''/'') = (c = CHR ''/'')" by (rule *) simp
qed

lemma lower_char_fixed:
  "\<not> (65 \<le> (of_char d :: nat) \<and> (of_char d :: nat) \<le> 90) \<Longrightarrow> lower_char d = d"
  by (auto simp: lower_char_def Let_def)

lemma lower_char_idem [simp]: "lower_char (lower_char c) = lower_char c"
proof (cases "65 \<le> (of_char c :: nat) \<and> (of_char c :: nat) \<le> 90")
  case True
  then have "of_char (lower_char c) = (of_char c + 32 :: nat)"
    by (simp add: lower_char_def Let_def)
  with True have "\<not> (65 \<le> (of_char (lower_char c) :: nat) \<and> (of_char (lower_char c) :: nat) \<le> 90)"
    by simp
  then show ?thesis by (rule lower_char_fixed)
next
  case False
  then show ?thesis by (simp add: lower_char_fixed)
qed

lemma path_basename_lower: "path_basename (toLowerCase p) = toLowerCase (path_basename p)"
  by (simp add: path_basename_def toLowerCase_def rev_map takeWhile_map dropWhile_map comp_def)

lemma toLowerCase_eq_iff [simp]:
  "(toLowerCase s = []) = (s = [])" "(toLowerCase s = ''.'') = (s = ''.'')"
  "(toLowerCase s = ''..'') = (s = ''..'')"
  by (auto simp: toLowerCase_def)

lemma toLowerCase_dot: "toLowerCase (CHR ''.'' # s) = CHR ''.'' # toLowerCase s"
  by (simp add: toLowerCase_def lower_char_def)

lemma extname_lower: "extname (toLowerCase p) = toLowerCase (extname p)"
proof -
  have a: "rev (takeWhile (\<lambda>c. c \<noteq> CHR ''.'') (rev (toLowerCase b))) =
        toLowerCase (rev (takeWhile (\<lambda>c. c \<noteq> CHR ''.'') (rev b)))" for b
    by (simp add: toLowerCase_def rev_map takeWhile_map comp_def)
  have b: "rev (dropWhile (\<lambda>c. c \<noteq> CHR ''.'') (rev (toLowerCase b))) =
        toLowerCase (rev (dropWhile (\<lambda>c. c \<noteq> CHR ''.'') (rev b)))" for b
    by (simp add: toLowerCase_def rev_map dropWhile_map comp_def)
  have n: "toLowerCase [] = []" by simp
  show ?thesis
    unfolding extname_def path_basename_lower Let_def a b toLowerCase_eq_iff
    by (simp only: if_distrib [of toLowerCase] toLowerCase_dot n)
qed

lemma toLowerCase_idem: "toLowerCase (toLowerCase s) = toLowerCase s"
  by (simp add: toLowerCase_def)

lemma shouldProcessFile_lower: "shouldProcessFile (toLowerCase p) = shouldProcessFile p"
  by (simp add: shouldProcessFile_def extname_lower toLowerCase_idem)

lemma shouldProcessFile_case_insensitive:
  "toLowerCase p = toLowerCase q \<Longrightarrow> shouldProcessFile p = shouldProcessFile q"
  using shouldProcessFile_lower [of p] shouldProcessFile_lower [of q] by simp

lemma path_basename_join:
  assumes "name \<noteq> []" "CHR ''/'' \<notin> set name"
  shows "path_basename (d @ ''/'' @ name) = name"
proof -
  have r: "rev (d @ ''/'' @ name) = rev name @ CHR ''/'' # rev d"
    by simp
  have "dropWhile (\<lambda>c. c = CHR ''/'') (rev name @ CHR ''/'' # rev d) = rev name @ CHR ''/'' # rev d"
    using assms by (cases "rev name") auto
  moreover have "takeWhile (\<lambda>c. c \<noteq> CHR ''/'') (rev name @ CHR ''/'' # rev d) = rev name"
    using assms by (auto simp: takeWhile_tail)
  ultimately show ?thesis unfolding path_basename_def r by simp
qed

lemma path_basename_plain:
  assumes "CHR ''/'' \<notin> set name"
  shows "path_basename name = name"
proof -
  have d: "dropWhile (\<lambda>c. c = CHR ''/'') (rev name) = rev name"
    using assms by (cases "rev name") auto
  have t: "takeWhile (\<lambda>c. c \<noteq> CHR ''/'') (rev name) = rev name"
    using assms by auto
  show ?thesis unfolding path_basename_def d t by simp
qed

lemma shouldProcessFile_join:
  assumes "name \<noteq> []" "CHR ''/'' \<notin> set name"
  shows "shouldProcessFile (d @ ''/'' @ name) = shouldProcessFile name"
  by (simp only: shouldProcessFile_def extname_def path_basename_join [OF assms]
      path_basename_plain [OF assms(2)])

lemma extensions_shape:
  "x \<in> set extensions \<Longrightarrow> \<exists>r. x = CHR ''.'' # r \<and> r \<noteq> [] \<and> CHR ''.'' \<notin> set r"
  by (auto simp: extensions_def)

lemma extname_suffix:
  assumes "CHR ''/'' \<notin> set name" "name = stem @ CHR ''.'' # r" "stem \<noteq> []" "r \<noteq> []"
    "CHR ''.'' \<notin> set r"
  shows "extname name = CHR ''.'' # r"
proof -
  have b: "path_basename name = name" by (rule path_basename_plain [OF assms(1)])
  have rv: "rev name = rev r @ CHR ''.'' # rev stem" using assms(2) by simp
  have t: "takeWhile (\<lambda>c. c \<noteq> CHR ''.'') (rev name) = rev r"
    unfolding rv using assms(5) by (auto simp: takeWhile_tail)
  have d: "dropWhile (\<lambda>c. c \<noteq> CHR ''.'') (rev name) = CHR ''.'' # rev stem"
    unfolding rv using assms(5) by (auto simp: dropWhile_append3)
  have n: "name \<noteq> ''..''"
  proof
    assume "name = ''..''"
    then have "length (stem @ CHR ''.'' # r) = 2" using assms(2) by simp
    moreover have "length stem \<ge> 1" "length r \<ge> 1"
      using assms(3,4) by (simp_all add: Suc_leI)
    ultimately show False by simp
  qed
  show ?thesis
    unfolding extname_def b Let_def t d using assms(3) n by simp
qed

lemma extname_split:
  assumes "extname name \<noteq> []" "CHR ''/'' \<notin> set name"
  shows "\<exists>stem. name = stem @ extname name \<and> stem \<noteq> []"
proof -
  have b: "path_basename name = name" by (rule path_basename_plain [OF assms(2)])
  let ?u = "rev (dropWhile (\<lambda>c. c \<noteq> CHR ''.'') (rev name))"
  let ?a = "rev (takeWhile (\<lambda>c. c \<noteq> CHR ''.'') (rev name))"
  from assms(1) have u: "?u \<noteq> []" "?u \<noteq> ''.''" and e: "extname name = CHR ''.'' # ?a"
    unfolding extname_def b Let_def by (auto split: if_splits)
  have nm: "name = ?u @ ?a"
  proof -
    have "rev name = rev (?u @ ?a)" by simp
    then show ?thesis by (simp only: rev_is_rev_conv)
  qed
  from u(1) obtain c cs where dw: "dropWhile (\<lambda>c. c \<noteq> CHR ''.'') (rev name) = c # cs"
    by (cases "dropWhile (\<lambda>c. c \<noteq> CHR ''.'') (rev name)") auto
  have "c = CHR ''.''" using hd_dropWhile [of "\<lambda>c. c \<noteq> CHR ''.''" "rev name"] dw by simp
  with dw have us: "?u = rev cs @ ''.''" by simp
  with u(2) have cs: "rev cs \<noteq> []" by auto
  have "name = rev cs @ extname name" using nm us e by simp
  with cs show ?thesis by blast
qed

lemma shouldProcessFile_suffix:
  assumes "CHR ''/'' \<notin> set name"
  shows "shouldProcessFile name \<longleftrightarrow>
     (\<exists>stem e. name = stem @ e \<and> stem \<noteq> [] \<and> toLowerCase e \<in> set extensions)"
proof
  assume s: "shouldProcessFile name"
  then have m: "toLowerCase (extname name) \<in> set extensions" by (simp add: shouldProcessFile_def)
  from extensions_shape [OF m] have "extname name \<noteq> []" by (auto simp: toLowerCase_def)
  from extname_split [OF this assms] m
  show "\<exists>stem e. name = stem @ e \<and> stem \<noteq> [] \<and> toLowerCase e \<in> set extensions"
    by blast
next
  assume "\<exists>stem e. name = stem @ e \<and> stem \<noteq> [] \<and> toLowerCase e \<in> set extensions"
  then obtain stem e where n: "name = stem @ e" and st: "stem \<noteq> []"
    and m: "toLowerCase e \<in> set extensions"
    by blast
  from extensions_shape [OF m] obtain r where r: "toLowerCase e = CHR ''.'' # r" "r \<noteq> []"
    "CHR ''.'' \<notin> set r"
    by blast
  from r(1) obtain c e' where e: "e = c # e'" "lower_char c = CHR ''.''" "map lower_char e' = r"
    by (auto simp: toLowerCase_def)
  from e(2) have c: "c = CHR ''.''" by simp
  have e1: "e' \<noteq> []" using e(3) r(2) by auto
  have e2: "CHR ''.'' \<notin> set e'"
  proof
    assume "CHR ''.'' \<in> set e'"
    then have "lower_char CHR ''.'' \<in> set (map lower_char e')" by (simp only: set_map) blast
    moreover have "lower_char CHR ''.'' = CHR ''.''" by simp
    ultimately show False using e(3) r(3) by simp
  qed
  have "name = stem @ CHR ''.'' # e'" using n e(1) c by simp
  from extname_suffix [OF assms this st e1 e2] have "extname name = e" using e(1) c by simp
  with m show "shouldProcessFile name" by (simp add: shouldProcessFile_def)
qed

lemma chunk_loop_filePath:
  "(\<forall>c \<in> set acc. filePath c = fp) \<Longrightarrow>
   \<forall>c \<in> set (chunk_loop fp cs ls cur lc ci sl acc). filePath c = fp"
proof (induction ls arbitrary: cur lc ci sl acc)
  case Nil
  then show ?case by simp
next
  case (Cons line rest)
  show ?case
  proof (cases "lc + 1 \<ge> cs \<or> rest = []")
    case True
    have "\<forall>c \<in> set (acc @ [\<lparr>content = cur @ line @ [newline], filePath = fp, chunkIndex = ci,
                          startLine = sl, endLine = sl + (lc + 1) - 1\<rparr>]). filePath c = fp"
      using Cons.prems by simp
    from Cons.IH [OF this, of "[]" 0 "ci + 1" "sl + (lc + 1)"] show ?thesis
      using True by (simp add: Let_def)
  next
    case False
    from Cons.IH [OF Cons.prems, of "cur @ line @ [newline]" "lc + 1" ci sl] show ?thesis
      using False by (simp add: Let_def)
  qed
qed

lemma chunkFile_filePath: "c \<in> set (chunkFile fp file cs) \<Longrightarrow> filePath c = fp"
  using chunk_loop_filePath [of "[]" fp]
  by (auto simp: chunkFile_def split: option.splits)

lemma tree_files_prefix:
  "(ds', nm, f) \<in> set (tree_files ds e) \<Longrightarrow> \<exists>more. ds' = ds @ more"
proof (induction e arbitrary: ds)
  case (FileEntry name fl)
  then show ?case by simp
next
  case (DirEntry name listing)
  then obtain entries e' where l: "listing = Some entries" and e': "e' \<in> set entries"
    and m: "(ds', nm, f) \<in> set (tree_files (ds @ [name]) e')"
    by (cases listing) auto
  have le: "entries \<in> set_option listing" using l by simp
  from DirEntry.IH [OF le e' m] obtain more where "ds' = (ds @ [name]) @ more" by blast
  then have "ds' = ds @ (name # more)" by simp
  then show ?case by blast
next
  case (OtherEntry name)
  then show ?case by simp
qed

lemma filter_walked_ignored:
  assumes "list_ex ignoredDirectory ds"
  shows "filter (walked rootDir) (tree_files ds e) = []"
proof -
  have "\<not> walked rootDir x" if x: "x \<in> set (tree_files ds e)" for x
  proof -
    obtain ds' nm f where xe: "x = (ds', nm, f)" by (cases x) auto
    from tree_files_prefix x xe obtain more where "ds' = ds @ more" by blast
    with assms have "list_ex ignoredDirectory ds'" by (auto simp: list_ex_iff)
    then show ?thesis by (simp add: walked_def xe)
  qed
  then show ?thesis by (simp add: filter_empty_conv)
qed

lemma concat_map_filter_concat:
  "concat (map f (filter P (concat xss))) = concat (map (\<lambda>xs. concat (map f (filter P xs))) xss)"
  by (induction xss) auto

lemma processEntry_spec:
  "\<not> list_ex ignoredDirectory ds \<Longrightarrow>
   processEntry cs (foldl path_join rootDir ds) e =
     concat (map (chunks_of rootDir cs) (filter (walked rootDir) (tree_files ds e)))"
proof (induction e arbitrary: ds)
  case (FileEntry name f)
  then show ?case
    by (simp add: walked_def chunks_of_def entry_path_def Let_def)
next
  case (DirEntry name listing)
  show ?case
  proof (cases "name \<notin> set IGNORED_DIRS \<and> \<not> startsWithDot name")
    case False
    then have ig: "list_ex ignoredDirectory (ds @ [name])"
      by (auto simp: ignoredDirectory_def)
    have l: "processEntry cs (foldl path_join rootDir ds) (DirEntry name listing) = []"
      using False by auto
    have r: "filter (walked rootDir) (tree_files ds (DirEntry name listing)) = []"
    proof (cases listing)
      case None
      then show ?thesis by simp
    next
      case (Some entries)
      have "filter (walked rootDir) (tree_files (ds @ [name]) e') = []" for e'
        by (rule filter_walked_ignored [OF ig])
      then show ?thesis by (simp add: Some filter_concat comp_def)
    qed
    show ?thesis unfolding l r by simp
  next
    case True
    then have "\<not> ignoredDirectory name" by (simp add: ignoredDirectory_def)
    then have ok: "\<not> list_ex ignoredDirectory (ds @ [name])"
      using DirEntry.prems by simp
    show ?thesis
    proof (cases listing)
      case None
      then show ?thesis using True by simp
    next
      case (Some entries)
      have le: "entries \<in> set_option listing" using Some by simp
      have ih: "processEntry cs (path_join (foldl path_join rootDir ds) name) e' =
          concat (map (chunks_of rootDir cs) (filter (walked rootDir) (tree_files (ds @ [name]) e')))"
        if "e' \<in> set entries" for e'
        using DirEntry.IH [OF le that ok] by simp
      have l: "processEntry cs (foldl path_join rootDir ds) (DirEntry name listing) =
          concat (map (processEntry cs (path_join (foldl path_join rootDir ds) name)) entries)"
        using True Some by simp
      have m: "map (processEntry cs (path_join (foldl path_join rootDir ds) name)) entries =
          map (\<lambda>e'. concat (map (chunks_of rootDir cs)
                 (filter (walked rootDir) (tree_files (ds @ [name]) e')))) entries"
        by (rule map_cong [OF refl]) (rule ih)
      have r: "tree_files ds (DirEntry name listing) = concat (map (tree_files (ds @ [name])) entries)"
        using Some by simp
      show ?thesis
        unfolding l m r concat_map_filter_concat by (simp add: comp_def)
    qed
  qed
next
  case (OtherEntry name)
  then show ?case by simp
qed

lemma walkAndChunkDirectory_spec:
  "walkAndChunkDirectory rootDir listing cs = spec_walk rootDir listing cs"
proof (cases listing)
  case None
  then show ?thesis
    by (simp add: walkAndChunkDirectory_def processDirectory_def spec_walk_def listing_files_def)
next
  case (Some entries)
  have e: "processEntry cs rootDir e' =
      concat (map (chunks_of rootDir cs) (filter (walked rootDir) (tree_files [] e')))" for e'
    using processEntry_spec [of "[]" cs rootDir e'] by simp
  have m: "map (processEntry cs rootDir) entries =
      map (\<lambda>e'. concat (map (chunks_of rootDir cs)
             (filter (walked rootDir) (tree_files [] e')))) entries"
    by (rule map_cong [OF refl]) (rule e)
  have l: "walkAndChunkDirectory rootDir listing cs = concat (map (processEntry cs rootDir) entries)"
    by (simp add: walkAndChunkDirectory_def processDirectory_def Some)
  have r: "listing_files listing = concat (map (tree_files []) entries)"
    by (simp add: listing_files_def Some)
  show ?thesis
    unfolding l m spec_walk_def r concat_map_filter_concat by (simp add: comp_def)
qed

lemma walkAndChunkDirectory_sound:
  assumes "c \<in> set (walkAndChunkDirectory rootDir listing cs)"
  shows "\<exists>ds nm f. (ds, nm, f) \<in> set (listing_files listing) \<and>
     \<not> list_ex ignoredDirectory ds \<and> shouldProcessFile (entry_path rootDir ds nm) \<and>
     c \<in> set (chunkFile (entry_path rootDir ds nm) f cs) \<and>
     filePath c = entry_path rootDir ds nm"
proof -
  from assms obtain x where x: "x \<in> set (listing_files listing)" "walked rootDir x"
    "c \<in> set (chunks_of rootDir cs x)"
    unfolding walkAndChunkDirectory_spec spec_walk_def by auto
  obtain ds nm f where xe: "x = (ds, nm, f)" by (cases x) auto
  from x(3) have m: "c \<in> set (chunkFile (entry_path rootDir ds nm) f cs)"
    by (simp add: chunks_of_def xe)
  from chunkFile_filePath [OF m] have fp: "filePath c = entry_path rootDir ds nm" .
  from x(1,2) m fp show ?thesis unfolding xe walked_def by auto
qed

lemma walkAndChunkDirectory_complete:
  assumes "(ds, nm, f) \<in> set (listing_files listing)" "\<not> list_ex ignoredDirectory ds"
    "shouldProcessFile (entry_path rootDir ds nm)"
  shows "set (chunkFile (entry_path rootDir ds nm) f cs) \<subseteq> set (walkAndChunkDirectory rootDir listing cs)"
proof -
  have w: "walked rootDir (ds, nm, f)" using assms(2,3) by (simp add: walked_def)
  have "set (chunks_of rootDir cs (ds, nm, f)) \<subseteq> set (spec_walk rootDir listing cs)"
    unfolding spec_walk_def using assms(1) w by auto
  then show ?thesis by (simp add: walkAndChunkDirectory_spec chunks_of_def)
qed

text \<open>
  C8 (as the code has it). \<open>shouldProcessFile\<close> looks at the extension only: a name is
  accepted exactly when it ends, after at least one character, in an extension of the
  allow-list written in any case; the directories in front of the name play no part, and two
  paths that differ in case only are treated alike. Ignored directories are left out by
  \<open>walkAndChunkDirectory\<close>, which does not descend into a subdirectory whose name is in
  \<open>IGNORED_DIRS\<close> or starts with a dot: the walk returns exactly the chunks, in the order
  of the listings, of the files of the tree that are reached through directories none of
  which is ignored and whose path passes \<open>shouldProcessFile\<close>; so every chunk comes from
  such a file, and every such file is chunked.
\<close>

theorem shouldProcessFile_extension_only:
  "(CHR ''/'' \<notin> set name \<longrightarrow>
      (shouldProcessFile name \<longleftrightarrow>
         (\<exists>stem e. name = stem @ e \<and> stem \<noteq> [] \<and> toLowerCase e \<in> set extensions))) \<and>
   (name \<noteq> [] \<and> CHR ''/'' \<notin> set name \<longrightarrow>
      shouldProcessFile (d @ ''/'' @ name) = shouldProcessFile name) \<and>
   (toLowerCase p = toLowerCase q \<longrightarrow> shouldProcessFile p = shouldProcessFile q) \<and>
   walkAndChunkDirectory rootDir listing chunkSize =
     concat (map (\<lambda>(ds, nm, f). chunkFile (entry_path rootDir ds nm) f chunkSize)
       (filter (\<lambda>(ds, nm, f). \<not> list_ex ignoredDirectory ds \<and>
                  shouldProcessFile (entry_path rootDir ds nm))
          (listing_files listing))) \<and>
   (\<forall>c \<in> set (walkAndChunkDirectory rootDir listing chunkSize).
      \<exists>ds nm f. (ds, nm, f) \<in> set (listing_files listing) \<and>
        \<not> list_ex ignoredDirectory ds \<and> shouldProcessFile (entry_path rootDir ds nm) \<and>
        c \<in> set (chunkFile (entry_path rootDir ds nm) f chunkSize) \<and>
        filePath c = entry_path rootDir ds nm) \<and>
   (\<forall>x \<in> set (listing_files listing).
      \<not> list_ex ignoredDirectory (fst x) \<and>
      shouldProcessFile (entry_path rootDir (fst x) (fst (snd x))) \<longrightarrow>
      set (chunkFile (entry_path rootDir (fst x) (fst (snd x))) (snd (snd x)) chunkSize)
        \<subseteq> set (walkAndChunkDirectory rootDir listing chunkSize))"
proof -
  have a: "CHR ''/'' \<notin> set name \<longrightarrow>
      (shouldProcessFile name \<longleftrightarrow>
         (\<exists>stem e. name = stem @ e \<and> stem \<noteq> [] \<and> toLowerCase e \<in> set extensions))"
    using shouldProcessFile_suffix [of name] by blast
  have b: "name \<noteq> [] \<and> CHR ''/'' \<notin> set name \<longrightarrow>
      shouldProcessFile (d @ ''/'' @ name) = shouldProcessFile name"
    using shouldProcessFile_join [of name d] by blast
  have c: "toLowerCase p = toLowerCase q \<longrightarrow> shouldProcessFile p = shouldProcessFile q"
    using shouldProcessFile_case_insensitive [of p q] by blast
  have w: "walked rootDir = (\<lambda>(ds, nm, f). \<not> list_ex ignoredDirectory ds \<and>
                  shouldProcessFile (entry_path rootDir ds nm))"
    by (rule ext) (simp add: walked_def)
  have k: "chunks_of rootDir chunkSize = (\<lambda>(ds, nm, f). chunkFile (entry_path rootDir ds nm) f chunkSize)"
    by (rule ext) (simp add: chunks_of_def)
  have e: "walkAndChunkDirectory rootDir listing chunkSize =
     concat (map (\<lambda>(ds, nm, f). chunkFile (entry_path rootDir ds nm) f chunkSize)
       (filter (\<lambda>(ds, nm, f). \<not> list_ex ignoredDirectory ds \<and>
                  shouldProcessFile (entry_path rootDir ds nm))
          (listing_files listing)))"
    using walkAndChunkDirectory_spec [of rootDir listing chunkSize]
    unfolding spec_walk_def w k .
  have s: "\<forall>c \<in> set (walkAndChunkDirectory rootDir listing chunkSize).
      \<exists>ds nm f. (ds, nm, f) \<in> set (listing_files listing) \<and>
        \<not> list_ex ignoredDirectory ds \<and> shouldProcessFile (entry_path rootDir ds nm) \<and>
        c \<in> set (chunkFile (entry_path rootDir ds nm) f chunkSize) \<and>
        filePath c = entry_path rootDir ds nm"
    using walkAndChunkDirectory_sound [of _ rootDir listing chunkSize] by blast
  have t: "\<forall>x \<in> set (listing_files listing).
      \<not> list_ex ignoredDirectory (fst x) \<and>
      shouldProcessFile (entry_path rootDir (fst x) (fst (snd x))) \<longrightarrow>
      set (chunkFile (entry_path rootDir (fst x) (fst (snd x))) (snd (snd x)) chunkSize)
        \<subseteq> set (walkAndChunkDirectory rootDir listing chunkSize)"
  proof (intro ballI impI)
    fix x
    assume x: "x \<in> set (listing_files listing)"
      and h: "\<not> list_ex ignoredDirectory (fst x) \<and>
        shouldProcessFile (entry_path rootDir (fst x) (fst (snd x)))"
    obtain ds nm f where xe: "x = (ds, nm, f)" by (cases x) auto
    from walkAndChunkDirectory_complete [of ds nm f listing rootDir chunkSize] x h
    show "set (chunkFile (entry_path rootDir (fst x) (fst (snd x))) (snd (snd x)) chunkSize)
        \<subseteq> set (walkAndChunkDirectory rootDir listing chunkSize)"
      unfolding xe by simp
  qed
  show ?thesis by (intro conjI a b c e s t)
qed

theorem shouldProcessFile_extension_only_witness:
  "CHR ''/'' \<notin> set ''file.JS'' \<and> shouldProcessFile ''file.JS'' \<and>
   (\<exists>stem e. ''file.JS'' = stem @ e \<and> stem \<noteq> [] \<and> toLowerCase e \<in> set extensions) \<and>
   shouldProcessFile (''node_modules'' @ ''/'' @ ''file.JS'') \<and>
   toLowerCase ''/path/to/file.JS'' = toLowerCase ''/PATH/to/FILE.js'' \<and>
   shouldProcessFile ''/path/to/file.JS'' \<and> shouldProcessFile ''/PATH/to/FILE.js'' \<and>
   listing_files
      (Some [DirEntry ''src'' (Some [FileEntry ''a.ts'' (Some ''x''), FileEntry ''b.md'' (Some ''y'')]),
             DirEntry ''.github'' (Some [FileEntry ''c.js'' (Some ''z'')]),
             DirEntry ''node_modules'' (Some [FileEntry ''d.js'' (Some ''w'')])]) =
     [([''src''], ''a.ts'', Some ''x''), ([''src''], ''b.md'', Some ''y''),
      ([''.github''], ''c.js'', Some ''z''), ([''node_modules''], ''d.js'', Some ''w'')] \<and>
   walkAndChunkDirectory ''./work/j1''
      (Some [DirEntry ''src'' (Some [FileEntry ''a.ts'' (Some ''x''), FileEntry ''b.md'' (Some ''y'')]),
             DirEntry ''.github'' (Some [FileEntry ''c.js'' (Some ''z'')]),
             DirEntry ''node_modules'' (Some [FileEntry ''d.js'' (Some ''w'')])]) 500 =
     chunkFile ''work/j1/src/a.ts'' (Some ''x'') 500 \<and>
   map filePath (walkAndChunkDirectory ''./work/j1''
      (Some [DirEntry ''src'' (Some [FileEntry ''a.ts'' (Some ''x''), FileEntry ''b.md'' (Some ''y'')]),
             DirEntry ''.github'' (Some [FileEntry ''c.js'' (Some ''z'')]),
                    DirEntry ''node_modules'' (Some [FileEntry ''d.js'' (Some ''w'')])]) 500) =
     [''work/j1/src/a.ts''] \<and>
   \<not> list_ex ignoredDirectory [''src''] \<and>
   shouldProcessFile (entry_path ''./work/j1'' [''src''] ''a.ts'') \<and>
   entry_path ''./work/j1'' [''src''] ''a.ts'' = ''work/j1/src/a.ts'' \<and>
   set (chunkFile ''work/j1/src/a.ts'' (Some ''x'') 500) \<subseteq>
     set (walkAndChunkDirectory ''./work/j1''
      (Some [DirEntry ''src'' (Some [FileEntry ''a.ts'' (Some ''x''), FileEntry ''b.md'' (Some ''y'')]),
             DirEntry ''.github'' (Some [FileEntry ''c.js'' (Some ''z'')]),
             DirEntry ''node_modules'' (Some [FileEntry ''d.js'' (Some ''w'')])]) 500)"
proof -
  let ?tree = "(Some [DirEntry ''src'' (Some [FileEntry ''a.ts'' (Some ''x''), FileEntry ''b.md'' (Some ''y'')]),
             DirEntry ''.github'' (Some [FileEntry ''c.js'' (Some ''z'')]),
             DirEntry ''node_modules'' (Some [FileEntry ''d.js'' (Some ''w'')])])"
  note t = shouldProcessFile_extension_only [where name = "''file.JS''" and d = "''node_modules''"
      and p = "''/path/to/file.JS''" and q = "''/PATH/to/FILE.js''" and rootDir = "''./work/j1''"
      and listing = ?tree and chunkSize = 500]
  have ns: "CHR ''/'' \<notin> set ''file.JS''" by simp
  have ne: "''file.JS'' \<noteq> []" by simp
  have sp: "shouldProcessFile ''file.JS''" by code_simp
  from t [THEN conjunct1] ns sp
  have ex: "\<exists>stem e. ''file.JS'' = stem @ e \<and> stem \<noteq> [] \<and> toLowerCase e \<in> set extensions"
    by blast
  from t [THEN conjunct2, THEN conjunct1] ns ne sp
  have j: "shouldProcessFile (''node_modules'' @ ''/'' @ ''file.JS'')"
    by blast
  have lower: "toLowerCase ''/path/to/file.JS'' = toLowerCase ''/PATH/to/FILE.js''"
    by code_simp
  have upper: "shouldProcessFile ''/path/to/file.JS''"
    by code_simp
  from t [THEN conjunct2, THEN conjunct2, THEN conjunct1] lower upper
  have other: "shouldProcessFile ''/PATH/to/FILE.js''"
    by blast
  have lf: "listing_files ?tree =
     [([''src''], ''a.ts'', Some ''x''), ([''src''], ''b.md'', Some ''y''),
      ([''.github''], ''c.js'', Some ''z''), ([''node_modules''], ''d.js'', Some ''w'')]"
    by (simp add: listing_files_def)
  have sel: "concat (map (\<lambda>(ds, nm, f). chunkFile (entry_path ''./work/j1'' ds nm) f 500)
       (filter (\<lambda>(ds, nm, f). \<not> list_ex ignoredDirectory ds \<and>
                  shouldProcessFile (entry_path ''./work/j1'' ds nm))
          [([''src''], ''a.ts'', Some ''x''), ([''src''], ''b.md'', Some ''y''),
      ([''.github''], ''c.js'', Some ''z''), ([''node_modules''], ''d.js'', Some ''w'')])) =
     chunkFile ''work/j1/src/a.ts'' (Some ''x'') 500"
    by code_simp
  have w: "walkAndChunkDirectory ''./work/j1'' ?tree 500 =
     chunkFile ''work/j1/src/a.ts'' (Some ''x'') 500"
    using t [THEN conjunct2, THEN conjunct2, THEN conjunct2, THEN conjunct1]
    unfolding lf sel .
  have fp: "map filePath (chunkFile ''work/j1/src/a.ts'' (Some ''x'') 500) = [''work/j1/src/a.ts'']"
    by code_simp
  have fp': "map filePath (walkAndChunkDirectory ''./work/j1'' ?tree 500) = [''work/j1/src/a.ts'']"
    unfolding w by (rule fp)
  have p1: "\<not> list_ex ignoredDirectory [''src'']" by code_simp
  have ep: "entry_path ''./work/j1'' [''src''] ''a.ts'' = ''work/j1/src/a.ts''" by code_simp
  have p2: "shouldProcessFile (entry_path ''./work/j1'' [''src''] ''a.ts'')"
    unfolding ep by code_simp
  have x: "([''src''], ''a.ts'', Some ''x'') \<in> set (listing_files ?tree)"
    unfolding lf by simp
  from t [THEN conjunct2, THEN conjunct2, THEN conjunct2, THEN conjunct2, THEN conjunct2,
      THEN bspec, OF x] p1 p2
  have sub: "set (chunkFile ''work/j1/src/a.ts'' (Some ''x'') 500) \<subseteq>
     set (walkAndChunkDirectory ''./work/j1'' ?tree 500)"
    by (simp add: ep)
  show ?thesis by (intro conjI ns sp ex j lower upper other lf w fp' p1 p2 ep sub)
qed

text \<open>
  C8 as stated fails: \<open>shouldProcessFile\<close> accepts a path inside a directory whose name
  starts with a dot (the repository's own test expects \<open>true\<close> for
  \<open>.github/workflows/test.yml\<close>) and inside \<open>node_modules\<close>, where the specification's
  predicate rejects it.
\<close>

theorem shouldProcessFile_ignored_directory_counterexample:
  "shouldProcessFile ''.github/workflows/test.yml'' \<and>
   \<not> spec_shouldInclude ''.github/workflows/test.yml'' \<and>
   shouldProcessFile ''node_modules/pkg/index.js'' \<and>
   \<not> spec_shouldInclude ''node_modules/pkg/index.js''"
  by code_simp

section \<open>Properties of the working-copy manager\<close>

lemma cleanWorkingDirectory_log:
  "fs_log (cleanWorkingDirectory g d s) = fs_log s @ [Rm d]"
  by (simp add: cleanWorkingDirectory_def split: option.splits)

lemma cleanWorkingDirectory_dirs:
  "dirs (cleanWorkingDirectory g d s) = (if rm_result g d = None then dirs s - {d} else dirs s)"
  by (simp add: cleanWorkingDirectory_def split: option.splits)

lemma example_workDir: "path_join ''./work'' ''job1'' = ''work/job1''"
  by code_simp

text \<open>
  C9 (as the code has it). When the clone or the checkout of the revision fails,
  \<open>cloneRepository\<close> calls \<open>cleanWorkingDirectory\<close> on the job directory before it rethrows
  the error: the removal is the last file-system operation, and the directory is gone
  whenever the removal itself succeeds. A removal that fails is logged and swallowed: the
  directory then remains, and the original error is still the one propagated.
\<close>

theorem cloneRepository_failure_cleanup:
  assumes mk: "mkdir_result g (path_join (tempDir g) job) = None"
    and fails: "clone_result g repo (path_join (tempDir g) job) = Some e \<or>
       (clone_result g repo (path_join (tempDir g) job) = None \<and>
        (\<exists>c. commit = Some c \<and> c \<noteq> [] \<and>
             checkout_result g (path_join (tempDir g) job) c = Some e))"
  shows "fst (cloneRepository g repo job commit s) = Inl e \<and>
         last (fs_log (snd (cloneRepository g repo job commit s))) = Rm (path_join (tempDir g) job) \<and>
         (rm_result g (path_join (tempDir g) job) = None \<longrightarrow>
            path_join (tempDir g) job \<notin> dirs (snd (cloneRepository g repo job commit s))) \<and>
         (rm_result g (path_join (tempDir g) job) \<noteq> None \<longrightarrow>
            path_join (tempDir g) job \<in> dirs (snd (cloneRepository g repo job commit s)))"
  using fails
proof
  assume "clone_result g repo (path_join (tempDir g) job) = Some e"
  then show ?thesis
    using mk
    by (simp add: cloneRepository_def Let_def cleanWorkingDirectory_log cleanWorkingDirectory_dirs)
next
  assume "clone_result g repo (path_join (tempDir g) job) = None \<and>
        (\<exists>c. commit = Some c \<and> c \<noteq> [] \<and>
             checkout_result g (path_join (tempDir g) job) c = Some e)"
  then obtain c where "clone_result g repo (path_join (tempDir g) job) = None"
    "commit = Some c" "c \<noteq> []" "checkout_result g (path_join (tempDir g) job) c = Some e"
    by blast
  then show ?thesis
    using mk
    by (simp add: cloneRepository_def Let_def cleanWorkingDirectory_log cleanWorkingDirectory_dirs)
qed

theorem cloneRepository_failure_cleanup_witness:
  "fst (cloneRepository (example_git\<lparr>checkout_result := (\<lambda>_ _. Some (JsError None ''bad revision''))\<rparr>)
          ''https://host/r.git'' ''job1'' (Some ''abc123'') example_fs)
     = Inl (JsError None ''bad revision'') \<and>
   ''work/job1'' \<notin> dirs (snd (cloneRepository
          (example_git\<lparr>checkout_result := (\<lambda>_ _. Some (JsError None ''bad revision''))\<rparr>)
          ''https://host/r.git'' ''job1'' (Some ''abc123'') example_fs)) \<and>
   fs_log (snd (cloneRepository
          (example_git\<lparr>checkout_result := (\<lambda>_ _. Some (JsError None ''bad revision''))\<rparr>)
          ''https://host/r.git'' ''job1'' (Some ''abc123'') example_fs))
     = [Mkdir ''work/job1'', GitClone ''https://host/r.git'' ''work/job1'',
        GitCheckout ''work/job1'' ''abc123'', Rm ''work/job1'']"
  using cloneRepository_failure_cleanup
    [of "example_git\<lparr>checkout_result := (\<lambda>_ _. Some (JsError None ''bad revision''))\<rparr>"
      "''job1''" "''https://host/r.git''" "JsError None ''bad revision''" "Some ''abc123''" example_fs]
  by (simp add: example_git_def example_fs_def cloneRepository_def cleanWorkingDirectory_def
      example_workDir Let_def)

text \<open>
  C9 as stated fails when the removal fails too: the clone error is propagated and the
  partially created directory is still there.
\<close>

theorem cloneRepository_orphan_counterexample:
  "fst (cloneRepository
          (example_git\<lparr>clone_result := (\<lambda>_ _. Some (JsError None ''repository not found'')),
                        rm_result := (\<lambda>_. Some (JsError (Some ''EPERM'') ''operation not permitted''))\<rparr>)
          ''https://host/r.git'' ''job1'' None example_fs)
     = Inl (JsError None ''repository not found'') \<and>
   ''work/job1'' \<in> dirs (snd (cloneRepository
          (example_git\<lparr>clone_result := (\<lambda>_ _. Some (JsError None ''repository not found'')),
                        rm_result := (\<lambda>_. Some (JsError (Some ''EPERM'') ''operation not permitted''))\<rparr>)
          ''https://host/r.git'' ''job1'' None example_fs))"
  by (simp add: example_git_def example_fs_def cloneRepository_def cleanWorkingDirectory_def
      example_workDir Let_def)

section \<open>Properties of the vector-store adapter\<close>

subsection \<open>The readiness poll\<close>

lemma poll_once_not_ready:
  "not_ready env (n_describe p) \<Longrightarrow>
   poll_once env p =
     (False, p\<lparr>adapter_log := adapter_log p @ butlast (poll_round_events env (n_describe p)),
               n_describe := n_describe p + 1\<rparr>)"
  by (auto simp: poll_once_def describeIndex_def not_ready_def poll_round_events_def log_event_def
      split: sum.splits)

lemma poll_once_ready:
  "\<not> not_ready env (n_describe p) \<Longrightarrow>
   poll_once env p =
     (True, p\<lparr>adapter_log := adapter_log p @ [DescribeIndex (indexName env)],
              n_describe := n_describe p + 1\<rparr>)"
  by (auto simp: poll_once_def describeIndex_def not_ready_def split: sum.splits)

lemma poll_round_events_snoc:
  "butlast (poll_round_events env k) @ [Delay 5000] = poll_round_events env k"
  by (simp add: poll_round_events_def butlast_append)

declare waitForIndexReady.simps [simp del] svc_wait.simps [simp del] decimal_acc.simps [simp del]

lemma upt_rounds:
  "m > 0 \<Longrightarrow> f n @ concat (map (\<lambda>k. f (Suc n + k)) [0..<m - 1]) = concat (map (\<lambda>k. f (n + k)) [0..<m])"
proof -
  assume "m > 0"
  then obtain m' where m: "m = Suc m'" by (cases m) auto
  have "[0..<Suc m'] = 0 # map Suc [0..<m']"
    by (simp add: upt_conv_Cons map_Suc_upt del: upt_Suc)
  then show ?thesis unfolding m by (simp add: comp_def del: upt_Suc)
qed

lemma waitForIndexReady_timeout:
  assumes "retries \<le> MAX_RETRIES"
    and "\<forall>k < MAX_RETRIES - retries. not_ready env (n_describe p + k)"
  shows "waitForIndexReady env retries p =
     (Inl (JsError None (''Index '' @ indexName env @ '' did not become ready after ''
                @ decimal_of_nat MAX_RETRIES @ '' retries'')),
      p\<lparr>adapter_log := adapter_log p
            @ concat (map (\<lambda>k. poll_round_events env (n_describe p + k)) [0..<MAX_RETRIES - retries]),
        n_describe := n_describe p + (MAX_RETRIES - retries)\<rparr>)"
  using assms
proof (induction env retries p rule: waitForIndexReady.induct)
  case (1 env retries p)
  show ?case
  proof (cases "retries < MAX_RETRIES")
    case False
    with "1.prems" have "retries = MAX_RETRIES" by simp
    then show ?thesis by (subst waitForIndexReady.simps) simp
  next
    case True
    let ?p1 = "p\<lparr>adapter_log := adapter_log p @ butlast (poll_round_events env (n_describe p)),
               n_describe := n_describe p + 1\<rparr>"
    let ?p2 = "log_event (Delay RETRY_DELAY_MS) ?p1"
    have nr: "not_ready env (n_describe p)" using "1.prems"(2) True by force
    have po: "poll_once env p = (False, ?p1)" using nr by (rule poll_once_not_ready)
    have nr': "\<forall>k < MAX_RETRIES - (retries + 1). not_ready env (n_describe ?p2 + k)"
    proof (intro allI impI)
      fix k assume "k < MAX_RETRIES - (retries + 1)"
      then have "Suc k < MAX_RETRIES - retries" by simp
      with "1.prems"(2) have "not_ready env (n_describe p + Suc k)" by blast
      then show "not_ready env (n_describe ?p2 + k)" by (simp add: log_event_def)
    qed
    have ih: "waitForIndexReady env (retries + 1) ?p2 =
      (Inl (JsError None (''Index '' @ indexName env @ '' did not become ready after ''
                @ decimal_of_nat MAX_RETRIES @ '' retries'')),
      ?p2\<lparr>adapter_log := adapter_log ?p2
            @ concat (map (\<lambda>k. poll_round_events env (n_describe ?p2 + k)) [0..<MAX_RETRIES - (retries + 1)]),
        n_describe := n_describe ?p2 + (MAX_RETRIES - (retries + 1))\<rparr>)"
      using True nr' by (intro "1.IH" [OF True po [symmetric] refl]) auto
    have lg: "adapter_log ?p2 = adapter_log p @ poll_round_events env (n_describe p)"
      by (simp add: log_event_def RETRY_DELAY_MS_def poll_round_events_snoc)
    have nd2: "n_describe ?p2 = Suc (n_describe p)" by (simp add: log_event_def)
    have cc: "poll_round_events env (n_describe p)
          @ concat (map (\<lambda>k. poll_round_events env (Suc (n_describe p) + k)) [0..<MAX_RETRIES - retries - 1])
        = concat (map (\<lambda>k. poll_round_events env (n_describe p + k)) [0..<MAX_RETRIES - retries])"
      using True by (intro upt_rounds) simp
    have lg': "adapter_log ?p2
          @ concat (map (\<lambda>k. poll_round_events env (n_describe ?p2 + k)) [0..<MAX_RETRIES - (retries + 1)])
        = adapter_log p
          @ concat (map (\<lambda>k. poll_round_events env (n_describe p + k)) [0..<MAX_RETRIES - retries])"
      unfolding lg nd2 append_assoc using cc by simp
    have nd: "n_describe ?p2 + (MAX_RETRIES - (retries + 1)) = n_describe p + (MAX_RETRIES - retries)"
      using True by (simp add: log_event_def)
    have "waitForIndexReady env retries p = waitForIndexReady env (retries + 1) ?p2"
      using True po by (subst waitForIndexReady.simps) simp
    also note ih
    finally show ?thesis
      unfolding lg' nd by (simp add: log_event_def)
  qed
qed

lemma poll_once_n_describe: "n_describe (snd (poll_once env p)) = n_describe p + 1"
  by (cases "not_ready env (n_describe p)") (simp_all add: poll_once_not_ready poll_once_ready)

lemma poll_once_frame:
  "store (snd (poll_once env p)) = store p"
  "initialized (snd (poll_once env p)) = initialized p"
  "n_upsert (snd (poll_once env p)) = n_upsert p"
  "filter is_upsert_request (adapter_log (snd (poll_once env p))) =
     filter is_upsert_request (adapter_log p)"
  by (cases "not_ready env (n_describe p)";
      simp add: poll_once_not_ready poll_once_ready poll_round_events_def butlast_append
        split: sum.splits)+

lemma waitForIndexReady_polls:
  "n_describe (snd (waitForIndexReady env retries p)) \<le> n_describe p + (MAX_RETRIES - retries)"
proof (induction env retries p rule: waitForIndexReady.induct)
  case (1 env retries p)
  show ?case
  proof (cases "retries < MAX_RETRIES")
    case False
    then show ?thesis by (subst waitForIndexReady.simps) simp
  next
    case True
    obtain b p1 where po: "poll_once env p = (b, p1)" by (cases "poll_once env p")
    then have n1: "n_describe p1 = n_describe p + 1"
      using poll_once_n_describe [of env p] by simp
    show ?thesis
    proof (cases b)
      case True
      with po \<open>retries < MAX_RETRIES\<close> n1 show ?thesis
        by (subst waitForIndexReady.simps) simp
    next
      case False
      with po have po': "(False, p1) = poll_once env p" by simp
      have "n_describe (snd (waitForIndexReady env (retries + 1) (log_event (Delay RETRY_DELAY_MS) p1)))
              \<le> n_describe (log_event (Delay RETRY_DELAY_MS) p1) + (MAX_RETRIES - (retries + 1))"
        by (rule "1.IH" [OF True po' refl])
      moreover have "waitForIndexReady env retries p =
          waitForIndexReady env (retries + 1) (log_event (Delay RETRY_DELAY_MS) p1)"
        using True po False by (subst waitForIndexReady.simps) simp
      ultimately show ?thesis using n1 True by (simp add: log_event_def)
    qed
  qed
qed

lemma waitForIndexReady_ready:
  assumes "j < MAX_RETRIES - retries"
    and "\<forall>k < j. not_ready env (n_describe p + k)"
    and "\<not> not_ready env (n_describe p + j)"
  shows "waitForIndexReady env retries p =
     (Inr (),
      p\<lparr>adapter_log := adapter_log p
            @ concat (map (\<lambda>k. poll_round_events env (n_describe p + k)) [0..<j])
            @ [DescribeIndex (indexName env)],
        n_describe := n_describe p + j + 1\<rparr>)"
  using assms
proof (induction j arbitrary: retries p)
  case 0
  then have "retries < MAX_RETRIES" and "\<not> not_ready env (n_describe p)" by simp_all
  then show ?case
    by (subst waitForIndexReady.simps) (simp add: poll_once_ready)
next
  case (Suc j)
  let ?p1 = "p\<lparr>adapter_log := adapter_log p @ butlast (poll_round_events env (n_describe p)),
               n_describe := n_describe p + 1\<rparr>"
  let ?p2 = "log_event (Delay RETRY_DELAY_MS) ?p1"
  from Suc.prems have lt: "retries < MAX_RETRIES" by simp
  have nr: "not_ready env (n_describe p)" using Suc.prems(2) by force
  have po: "poll_once env p = (False, ?p1)" using nr by (rule poll_once_not_ready)
  have nd2: "n_describe ?p2 = Suc (n_describe p)" by (simp add: log_event_def)
  have a1: "j < MAX_RETRIES - (retries + 1)" using Suc.prems(1) by simp
  have a2: "\<forall>k < j. not_ready env (n_describe ?p2 + k)"
  proof (intro allI impI)
    fix k assume "k < j"
    then have "Suc k < Suc j" by simp
    with Suc.prems(2) have "not_ready env (n_describe p + Suc k)" by blast
    then show "not_ready env (n_describe ?p2 + k)" by (simp add: log_event_def)
  qed
  have a3: "\<not> not_ready env (n_describe ?p2 + j)" using Suc.prems(3) by (simp add: log_event_def)
  have lg: "adapter_log ?p2 = adapter_log p @ poll_round_events env (n_describe p)"
    by (simp add: log_event_def RETRY_DELAY_MS_def poll_round_events_snoc)
  have cc: "poll_round_events env (n_describe p)
          @ concat (map (\<lambda>k. poll_round_events env (Suc (n_describe p) + k)) [0..<Suc j - 1])
        = concat (map (\<lambda>k. poll_round_events env (n_describe p + k)) [0..<Suc j])"
    by (intro upt_rounds) simp
  have lg': "adapter_log ?p2
          @ concat (map (\<lambda>k. poll_round_events env (n_describe ?p2 + k)) [0..<j])
          @ [DescribeIndex (indexName env)]
        = adapter_log p
          @ concat (map (\<lambda>k. poll_round_events env (n_describe p + k)) [0..<Suc j])
          @ [DescribeIndex (indexName env)]"
    unfolding lg nd2 using cc by (simp del: upt_Suc)
  have nd: "n_describe ?p2 + j + 1 = n_describe p + Suc j + 1"
    by (simp add: log_event_def)
  have "waitForIndexReady env retries p = waitForIndexReady env (retries + 1) ?p2"
    using lt po by (subst waitForIndexReady.simps) simp
  also note Suc.IH [OF a1 a2 a3]
  finally show ?case
    unfolding lg' nd by (simp add: log_event_def)
qed

lemma wait_versions_agree:
  "retries \<le> 12 \<Longrightarrow>
   waitForIndexReady env retries p =
     (case svc_wait env retries p of
        (r, p') \<Rightarrow>
          (if r = 12 then
             Inl (JsError None (''Index '' @ indexName env @ '' did not become ready after ''
                @ decimal_of_nat MAX_RETRIES @ '' retries''))
           else Inr (), p'))"
proof (induction env retries p rule: svc_wait.induct)
  case (1 env retries p)
  show ?case
  proof (cases "retries < 12")
    case False
    with "1.prems" have "retries = 12" by simp
    then show ?thesis
      by (subst waitForIndexReady.simps, subst svc_wait.simps) (simp add: MAX_RETRIES_def)
  next
    case True
    obtain b p1 where po: "poll_once env p = (b, p1)" by (cases "poll_once env p")
    show ?thesis
    proof (cases b)
      case True
      with po \<open>retries < 12\<close> show ?thesis
        by (subst waitForIndexReady.simps, subst svc_wait.simps) (simp add: MAX_RETRIES_def)
    next
      case False
      with po have po': "(False, p1) = poll_once env p" by simp
      have "waitForIndexReady env (retries + 1) (log_event (Delay 5000) p1) =
        (case svc_wait env (retries + 1) (log_event (Delay 5000) p1) of
        (r, p') \<Rightarrow>
          (if r = 12 then
             Inl (JsError None (''Index '' @ indexName env @ '' did not become ready after ''
                @ decimal_of_nat MAX_RETRIES @ '' retries''))
           else Inr (), p'))"
        using True by (intro "1.IH" [OF True po' refl]) simp
      then show ?thesis
        using True po False
        by (subst waitForIndexReady.simps, subst svc_wait.simps)
           (simp add: MAX_RETRIES_def RETRY_DELAY_MS_def)
    qed
  qed
qed

lemma svc_wait_timeout:
  assumes "\<forall>k < 12. not_ready env (n_describe p + k)"
  shows "svc_wait env 0 p =
     (12, p\<lparr>adapter_log := adapter_log p
            @ concat (map (\<lambda>k. poll_round_events env (n_describe p + k)) [0..<12]),
        n_describe := n_describe p + 12\<rparr>)"
proof -
  have "waitForIndexReady env 0 p =
     (Inl (JsError None (''Index '' @ indexName env @ '' did not become ready after ''
                @ decimal_of_nat MAX_RETRIES @ '' retries'')),
      p\<lparr>adapter_log := adapter_log p
            @ concat (map (\<lambda>k. poll_round_events env (n_describe p + k)) [0..<MAX_RETRIES - 0]),
        n_describe := n_describe p + (MAX_RETRIES - 0)\<rparr>)"
    using assms by (intro waitForIndexReady_timeout) (simp_all add: MAX_RETRIES_def)
  then show ?thesis
    using wait_versions_agree [of 0 env p]
    by (cases "svc_wait env 0 p") (simp add: MAX_RETRIES_def split: if_splits)
qed

lemma decimal_of_MAX_RETRIES: "decimal_of_nat MAX_RETRIES = ''12''"
  by code_simp

lemma svc_wait_state: "retries \<le> 12 \<Longrightarrow> snd (svc_wait env retries p) = snd (waitForIndexReady env retries p)"
  using wait_versions_agree [of retries env p]
  by (cases "svc_wait env retries p") simp

lemma poll_rounds_no_upsert:
  "filter is_upsert_request (concat (map (\<lambda>k. poll_round_events env (f k)) ks)) = []"
  by (induction ks) (auto simp: poll_round_events_def split: sum.splits)

lemma init_timeout:
  assumes "listIndexes_result env = Inr names" and "indexName env \<notin> set names"
    and "createIndex_result env = None"
    and "\<forall>k < 12. not_ready env (n_describe p + k)"
  shows "init env p =
     (Inl (JsError None (''Index '' @ indexName env @ '' did not become ready after 12 retries'')),
      p\<lparr>adapter_log := adapter_log p
            @ [ListIndexes, CreateIndex (indexName env) INDEX_DIMENSION INDEX_METRIC]
            @ concat (map (\<lambda>k. poll_round_events env (n_describe p + k)) [0..<12]),
        n_describe := n_describe p + 12\<rparr>)"
proof -
  let ?p1 = "log_event (CreateIndex (indexName env) INDEX_DIMENSION INDEX_METRIC)
               (log_event ListIndexes p)"
  have nd: "n_describe ?p1 = n_describe p" by (simp add: log_event_def)
  have "waitForIndexReady env 0 ?p1 =
     (Inl (JsError None (''Index '' @ indexName env @ '' did not become ready after ''
                @ decimal_of_nat MAX_RETRIES @ '' retries'')),
      ?p1\<lparr>adapter_log := adapter_log ?p1
            @ concat (map (\<lambda>k. poll_round_events env (n_describe ?p1 + k)) [0..<MAX_RETRIES - 0]),
        n_describe := n_describe ?p1 + (MAX_RETRIES - 0)\<rparr>)"
    using assms(4) by (intro waitForIndexReady_timeout) (simp_all add: MAX_RETRIES_def nd)
  then have w: "waitForIndexReady env 0 ?p1 =
     (Inl (JsError None (''Index '' @ indexName env @ '' did not become ready after 12 retries'')),
      p\<lparr>adapter_log := adapter_log p
            @ [ListIndexes, CreateIndex (indexName env) INDEX_DIMENSION INDEX_METRIC]
            @ concat (map (\<lambda>k. poll_round_events env (n_describe p + k)) [0..<12]),
        n_describe := n_describe p + 12\<rparr>)"
    unfolding decimal_of_MAX_RETRIES nd by (simp add: MAX_RETRIES_def log_event_def)
  show ?thesis
    using assms(1-3) by (simp add: init_def Let_def w)
qed

lemma svc_init_timeout:
  assumes "listIndexes_result env = Inr names" and "indexName env \<notin> set names"
    and "createIndex_result env = None"
    and "\<forall>k < 12. not_ready env (n_describe p + k)"
  shows "svc_init env p =
     (Inl (JsError None (''Index '' @ indexName env @ '' did not become ready in time.'')),
      p\<lparr>adapter_log := adapter_log p
            @ [ListIndexes, CreateIndex (indexName env) INDEX_DIMENSION INDEX_METRIC]
            @ concat (map (\<lambda>k. poll_round_events env (n_describe p + k)) [0..<12]),
        n_describe := n_describe p + 12\<rparr>)"
proof -
  let ?p1 = "log_event (CreateIndex (indexName env) INDEX_DIMENSION INDEX_METRIC)
               (log_event ListIndexes p)"
  have nd: "n_describe ?p1 = n_describe p" by (simp add: log_event_def)
  have "svc_wait env 0 ?p1 =
     (12, ?p1\<lparr>adapter_log := adapter_log ?p1
            @ concat (map (\<lambda>k. poll_round_events env (n_describe ?p1 + k)) [0..<12]),
        n_describe := n_describe ?p1 + 12\<rparr>)"
    using assms(4) by (intro svc_wait_timeout) (simp add: nd)
  then have w: "svc_wait env 0 ?p1 =
     (12, p\<lparr>adapter_log := adapter_log p
            @ [ListIndexes, CreateIndex (indexName env) INDEX_DIMENSION INDEX_METRIC]
            @ concat (map (\<lambda>k. poll_round_events env (n_describe p + k)) [0..<12]),
        n_describe := n_describe p + 12\<rparr>)"
    unfolding nd by (simp add: log_event_def)
  show ?thesis
    using assms(1-3) by (simp add: svc_init_def Let_def w)
qed

lemma upsert_init_timeout:
  assumes "listIndexes_result env = Inr names" and "indexName env \<notin> set names"
    and "createIndex_result env = None"
    and "\<forall>k < 12. not_ready env (n_describe p + k)"
    and "\<not> initialized p" and "vectors \<noteq> []"
  shows "upsert env vectors p =
     (Inl (JsError None (''Index '' @ indexName env @ '' did not become ready after 12 retries'')),
      p\<lparr>adapter_log := adapter_log p
            @ [LogWarn ''Pinecone client not initialized. Attempting initialization now...'',
               ListIndexes, CreateIndex (indexName env) INDEX_DIMENSION INDEX_METRIC]
            @ concat (map (\<lambda>k. poll_round_events env (n_describe p + k)) [0..<12]),
        n_describe := n_describe p + 12\<rparr>)"
proof -
  let ?p0 = "log_event (LogWarn ''Pinecone client not initialized. Attempting initialization now...'') p"
  have "\<forall>k < 12. not_ready env (n_describe ?p0 + k)"
    using assms(4) by (simp add: log_event_def)
  from init_timeout [OF assms(1-3) this]
  show ?thesis
    using assms(5,6) by (simp add: upsert_def ensureInitialized_def log_event_def)
qed

lemma svc_upsert_init_timeout:
  assumes "listIndexes_result env = Inr names" and "indexName env \<notin> set names"
    and "createIndex_result env = None"
    and "\<forall>k < 12. not_ready env (n_describe p + k)"
    and "\<not> initialized p"
  shows "svc_upsert env vectors p =
     (Inl (JsError None (''Index '' @ indexName env @ '' did not become ready in time.'')),
      p\<lparr>adapter_log := adapter_log p
            @ [LogWarn ''Pinecone client not initialized. Attempting initialization now...'',
               ListIndexes, CreateIndex (indexName env) INDEX_DIMENSION INDEX_METRIC]
            @ concat (map (\<lambda>k. poll_round_events env (n_describe p + k)) [0..<12]),
        n_describe := n_describe p + 12\<rparr>)"
proof -
  let ?p0 = "log_event (LogWarn ''Pinecone client not initialized. Attempting initialization now...'') p"
  have "\<forall>k < 12. not_ready env (n_describe ?p0 + k)"
    using assms(4) by (simp add: log_event_def)
  from svc_init_timeout [OF assms(1-3) this]
  show ?thesis
    using assms(5) by (simp add: svc_upsert_def svc_ensureInitialized_def log_event_def)
qed

text \<open>
  C7. When \<open>init\<close> has created the index, it polls \<open>describeIndex\<close> with a wait of
  5000 ms after every poll that did not find the index ready, for at most 12 polls, and
  stops at the first poll that finds it ready. A poll that fails with code \<open>'404'\<close> leaves
  no warning, any other failing poll leaves one, and both are followed by the next poll.
  When none of the 12 polls finds the index ready,
  \<open>init\<close> fails with the error "did not become ready", the adapter stays uninitialised,
  and an \<open>upsert\<close> that ran this initialisation fails with the same error without having
  sent any upsert request. Both versions of the adapter behave so.
\<close>

theorem init_poll_exhausted:
  assumes "listIndexes_result env = Inr names" and "indexName env \<notin> set names"
    and "createIndex_result env = None"
    and "\<forall>k < 12. not_ready env (n_describe p + k)"
    and "\<not> initialized p" and "vectors \<noteq> []"
  shows
    "init env p =
       (Inl (JsError None (''Index '' @ indexName env @ '' did not become ready after 12 retries'')),
        p\<lparr>adapter_log := adapter_log p
              @ [ListIndexes, CreateIndex (indexName env) INDEX_DIMENSION INDEX_METRIC]
              @ concat (map (\<lambda>k. poll_round_events env (n_describe p + k)) [0..<12]),
          n_describe := n_describe p + 12\<rparr>) \<and>
     svc_init env p =
       (Inl (JsError None (''Index '' @ indexName env @ '' did not become ready in time.'')),
        p\<lparr>adapter_log := adapter_log p
              @ [ListIndexes, CreateIndex (indexName env) INDEX_DIMENSION INDEX_METRIC]
              @ concat (map (\<lambda>k. poll_round_events env (n_describe p + k)) [0..<12]),
          n_describe := n_describe p + 12\<rparr>) \<and>
     \<not> initialized (snd (init env p)) \<and> \<not> initialized (snd (svc_init env p)) \<and>
     fst (upsert env vectors p) =
       Inl (JsError None (''Index '' @ indexName env @ '' did not become ready after 12 retries'')) \<and>
     \<not> initialized (snd (upsert env vectors p)) \<and>
     store (snd (upsert env vectors p)) = store p \<and>
     filter is_upsert_request (adapter_log (snd (upsert env vectors p))) =
       filter is_upsert_request (adapter_log p) \<and>
     fst (svc_upsert env vectors p) =
       Inl (JsError None (''Index '' @ indexName env @ '' did not become ready in time.'')) \<and>
     \<not> initialized (snd (svc_upsert env vectors p)) \<and>
     store (snd (svc_upsert env vectors p)) = store p \<and>
     filter is_upsert_request (adapter_log (snd (svc_upsert env vectors p))) =
       filter is_upsert_request (adapter_log p) \<and>
     n_describe (snd (waitForIndexReady env' 0 p')) \<le> n_describe p' + 12 \<and>
     snd (svc_wait env' 0 p') = snd (waitForIndexReady env' 0 p') \<and>
     (j < 12 \<and> (\<forall>k < j. not_ready env' (n_describe p' + k)) \<and>
        \<not> not_ready env' (n_describe p' + j) \<longrightarrow>
      waitForIndexReady env' 0 p' =
        (Inr (),
         p'\<lparr>adapter_log := adapter_log p'
               @ concat (map (\<lambda>k. poll_round_events env' (n_describe p' + k)) [0..<j])
               @ [DescribeIndex (indexName env')],
            n_describe := n_describe p' + j + 1\<rparr>))"
proof -
  have sv: "snd (svc_wait env' 0 p') = snd (waitForIndexReady env' 0 p')"
    by (rule svc_wait_state) simp
  have rd: "j < 12 \<and> (\<forall>k < j. not_ready env' (n_describe p' + k)) \<and>
        \<not> not_ready env' (n_describe p' + j) \<longrightarrow>
      waitForIndexReady env' 0 p' =
        (Inr (),
         p'\<lparr>adapter_log := adapter_log p'
               @ concat (map (\<lambda>k. poll_round_events env' (n_describe p' + k)) [0..<j])
               @ [DescribeIndex (indexName env')],
            n_describe := n_describe p' + j + 1\<rparr>)"
  proof (intro impI)
    assume a: "j < 12 \<and> (\<forall>k < j. not_ready env' (n_describe p' + k)) \<and>
        \<not> not_ready env' (n_describe p' + j)"
    then have "j < MAX_RETRIES - 0" by (simp add: MAX_RETRIES_def)
    with a show "waitForIndexReady env' 0 p' =
        (Inr (),
         p'\<lparr>adapter_log := adapter_log p'
               @ concat (map (\<lambda>k. poll_round_events env' (n_describe p' + k)) [0..<j])
               @ [DescribeIndex (indexName env')],
            n_describe := n_describe p' + j + 1\<rparr>)"
      by (intro waitForIndexReady_ready) simp_all
  qed
  note i = init_timeout [OF assms(1-4)]
  note s = svc_init_timeout [OF assms(1-4)]
  note u = upsert_init_timeout [OF assms]
  note v = svc_upsert_init_timeout [OF assms(1-5), of vectors]
  have b: "n_describe (snd (waitForIndexReady env' 0 p')) \<le> n_describe p' + 12"
    using waitForIndexReady_polls [of env' 0 p'] by (simp add: MAX_RETRIES_def)
  have i2: "\<not> initialized (snd (init env p))" unfolding i using assms(5) by simp
  have s2: "\<not> initialized (snd (svc_init env p))" unfolding s using assms(5) by simp
  have u2: "\<not> initialized (snd (upsert env vectors p))"
    unfolding u using assms(5) by simp
  have u3: "store (snd (upsert env vectors p)) = store p"
    unfolding u by simp
  have u4: "filter is_upsert_request (adapter_log (snd (upsert env vectors p))) =
       filter is_upsert_request (adapter_log p)"
    unfolding u by (simp add: poll_rounds_no_upsert)
  have v2: "\<not> initialized (snd (svc_upsert env vectors p))"
    unfolding v using assms(5) by simp
  have v3: "store (snd (svc_upsert env vectors p)) = store p"
    unfolding v by simp
  have v4: "filter is_upsert_request (adapter_log (snd (svc_upsert env vectors p))) =
       filter is_upsert_request (adapter_log p)"
    unfolding v by (simp add: poll_rounds_no_upsert)
  have u1: "fst (upsert env vectors p) =
       Inl (JsError None (''Index '' @ indexName env @ '' did not become ready after 12 retries''))"
    unfolding u by simp
  have v1: "fst (svc_upsert env vectors p) =
       Inl (JsError None (''Index '' @ indexName env @ '' did not become ready in time.''))"
    unfolding v by simp
  show ?thesis by (intro conjI i s i2 s2 u1 u2 u3 u4 v1 v2 v3 v4 b sv rd)
qed

theorem init_poll_exhausted_witness:
  "listIndexes_result example_env = Inr [] \<and> createIndex_result example_env = None \<and>
   \<not> initialized fresh_adapter \<and>
   fst (init example_env fresh_adapter) =
     Inl (JsError None ''Index code did not become ready after 12 retries'') \<and>
   take 9 (adapter_log (snd (init example_env fresh_adapter))) =
     [ListIndexes, CreateIndex ''code'' 1536 ''cosine'',
      DescribeIndex ''code'', Delay 5000,
      DescribeIndex ''code'', LogWarn ''Error describing index while waiting, retrying...'', Delay 5000,
      DescribeIndex ''code'', Delay 5000] \<and>
   length (filter (\<lambda>ev. ev = DescribeIndex ''code'') (adapter_log (snd (init example_env fresh_adapter)))) = 12 \<and>
   length (filter (\<lambda>ev. ev = Delay 5000) (adapter_log (snd (init example_env fresh_adapter)))) = 12 \<and>
   \<not> initialized (snd (upsert example_env [example_vector ''v1'' ''alice''] fresh_adapter)) \<and>
   filter is_upsert_request
     (adapter_log (snd (upsert example_env [example_vector ''v1'' ''alice''] fresh_adapter))) = [] \<and>
   \<not> not_ready example_env_later_ready 2 \<and>
   waitForIndexReady example_env_later_ready 0 fresh_adapter =
     (Inr (),
      fresh_adapter\<lparr>adapter_log :=
         [DescribeIndex ''code'', Delay 5000,
          DescribeIndex ''code'', LogWarn ''Error describing index while waiting, retrying...'', Delay 5000,
          DescribeIndex ''code''],
        n_describe := 3\<rparr>)"
proof -
  have h1: "listIndexes_result example_env = Inr []" by (simp add: example_env_def)
  have h2: "indexName example_env \<notin> set []" by simp
  have h3: "createIndex_result example_env = None" by (simp add: example_env_def)
  have "not_ready example_env k" for k
    by (simp add: not_ready_def example_env_def)
  then have h4: "\<forall>k < 12. not_ready example_env (n_describe fresh_adapter + k)"
    by blast
  have h5: "\<not> initialized fresh_adapter" by (simp add: fresh_adapter_def)
  have h6: "[example_vector ''v1'' ''alice''] \<noteq> []" by simp
  note t = init_poll_exhausted [OF h1 h2 h3 h4 h5 h6, of example_env_later_ready fresh_adapter 2]
  let ?log = "adapter_log fresh_adapter
              @ [ListIndexes, CreateIndex (indexName example_env) INDEX_DIMENSION INDEX_METRIC]
              @ concat (map (\<lambda>k. poll_round_events example_env (n_describe fresh_adapter + k)) [0..<12])"
  have r: "[0..<12] = [0, 1, 2, 3, 4, 5, 6, 7, 8, 9, 10, 11 :: nat]"
    by (simp add: upt_rec)
  have c: "take 9 ?log =
     [ListIndexes, CreateIndex ''code'' 1536 ''cosine'',
      DescribeIndex ''code'', Delay 5000,
      DescribeIndex ''code'', LogWarn ''Error describing index while waiting, retrying...'', Delay 5000,
      DescribeIndex ''code'', Delay 5000] \<and>
   length (filter (\<lambda>ev. ev = DescribeIndex ''code'') ?log) = 12 \<and>
   length (filter (\<lambda>ev. ev = Delay 5000) ?log) = 12"
    unfolding r
    by (simp add: poll_round_events_def example_env_def fresh_adapter_def INDEX_DIMENSION_def
        INDEX_METRIC_def)
  have n: "''Index '' @ indexName example_env @ '' did not become ready after 12 retries''
             = ''Index code did not become ready after 12 retries''"
    by (simp add: example_env_def)
  note t1 = t [THEN conjunct1]
  have l: "adapter_log (snd (init example_env fresh_adapter)) = ?log"
    unfolding t1 by simp
  have f: "fst (init example_env fresh_adapter) =
     Inl (JsError None ''Index code did not become ready after 12 retries'')"
    unfolding t1 using n by simp
  have a: "adapter_log fresh_adapter = []" by (simp add: fresh_adapter_def)
  have u: "\<not> initialized (snd (upsert example_env [example_vector ''v1'' ''alice''] fresh_adapter))"
    using t by blast
  have "filter is_upsert_request
     (adapter_log (snd (upsert example_env [example_vector ''v1'' ''alice''] fresh_adapter))) =
       filter is_upsert_request (adapter_log fresh_adapter)"
    using t by blast
  then have v: "filter is_upsert_request
     (adapter_log (snd (upsert example_env [example_vector ''v1'' ''alice''] fresh_adapter))) = []"
    using a by simp
  have nr: "\<forall>k < 2. not_ready example_env_later_ready (n_describe fresh_adapter + k)"
    by (simp add: not_ready_def example_env_later_ready_def example_env_def fresh_adapter_def
        less_Suc_eq numeral_2_eq_2)
  have rdy: "\<not> not_ready example_env_later_ready (n_describe fresh_adapter + 2)"
    by (simp add: not_ready_def example_env_later_ready_def fresh_adapter_def)
  have two: "(2::nat) < 12" by simp
  from t two nr rdy have w: "waitForIndexReady example_env_later_ready 0 fresh_adapter =
        (Inr (),
         fresh_adapter\<lparr>adapter_log := adapter_log fresh_adapter
               @ concat (map (\<lambda>k. poll_round_events example_env_later_ready (n_describe fresh_adapter + k)) [0..<2])
               @ [DescribeIndex (indexName example_env_later_ready)],
            n_describe := n_describe fresh_adapter + 2 + 1\<rparr>)"
    by blast
  have r2: "[0..<2] = [0, 1 :: nat]" by (simp add: upt_rec)
  have w': "waitForIndexReady example_env_later_ready 0 fresh_adapter =
     (Inr (),
      fresh_adapter\<lparr>adapter_log :=
         [DescribeIndex ''code'', Delay 5000,
          DescribeIndex ''code'', LogWarn ''Error describing index while waiting, retrying...'', Delay 5000,
          DescribeIndex ''code''],
        n_describe := 3\<rparr>)"
    unfolding w r2
    by (simp add: poll_round_events_def example_env_later_ready_def example_env_def
        fresh_adapter_def)
  have rdy': "\<not> not_ready example_env_later_ready 2"
    by (simp add: not_ready_def example_env_later_ready_def)
  have c1: "take 9 (adapter_log (snd (init example_env fresh_adapter))) =
     [ListIndexes, CreateIndex ''code'' 1536 ''cosine'',
      DescribeIndex ''code'', Delay 5000,
      DescribeIndex ''code'', LogWarn ''Error describing index while waiting, retrying...'', Delay 5000,
      DescribeIndex ''code'', Delay 5000]"
    and c2: "length (filter (\<lambda>ev. ev = DescribeIndex ''code'') (adapter_log (snd (init example_env fresh_adapter)))) = 12"
    and c3: "length (filter (\<lambda>ev. ev = Delay 5000) (adapter_log (snd (init example_env fresh_adapter)))) = 12"
    unfolding l using c by blast+
  show ?thesis by (intro conjI h1 h3 h5 f c1 c2 c3 u v rdy' w')
qed

subsection \<open>What initialisation leaves untouched\<close>


declare upsert_batches.simps [simp del] svc_upsert_batches.simps [simp del]

lemma poll_once_log:
  "\<exists>new. adapter_log (snd (poll_once env p)) = adapter_log p @ new \<and>
         filter is_upsert_request new = []"
proof (cases "not_ready env (n_describe p)")
  case True
  then show ?thesis
    by (auto simp: poll_once_not_ready poll_round_events_def butlast_append split: sum.splits)
next
  case False
  then show ?thesis by (simp add: poll_once_ready)
qed

lemma waitForIndexReady_frame:
  "(\<exists>new. adapter_log (snd (waitForIndexReady env retries p)) = adapter_log p @ new \<and>
          filter is_upsert_request new = []) \<and>
   store (snd (waitForIndexReady env retries p)) = store p \<and>
   initialized (snd (waitForIndexReady env retries p)) = initialized p"
proof (induction env retries p rule: waitForIndexReady.induct)
  case (1 env retries p)
  show ?case
  proof (cases "retries < MAX_RETRIES")
    case False
    then show ?thesis by (subst (1 2 3) waitForIndexReady.simps) simp
  next
    case True
    obtain b p1 where po: "poll_once env p = (b, p1)" by (cases "poll_once env p")
    from poll_once_log [of env p] po obtain n1 where
      n1: "adapter_log p1 = adapter_log p @ n1" "filter is_upsert_request n1 = []"
      by auto
    from poll_once_frame [of env p] po have f1: "store p1 = store p" "initialized p1 = initialized p"
      by auto
    show ?thesis
    proof (cases b)
      case True
      with po \<open>retries < MAX_RETRIES\<close> n1 f1 show ?thesis
        by (subst (1 2 3) waitForIndexReady.simps) simp
    next
      case False
      with po have po': "(False, p1) = poll_once env p" by simp
      let ?p2 = "log_event (Delay RETRY_DELAY_MS) p1"
      from "1.IH" [OF True po' refl] obtain n2 where
        n2: "adapter_log (snd (waitForIndexReady env (retries + 1) ?p2)) = adapter_log ?p2 @ n2"
          "filter is_upsert_request n2 = []"
        and f2: "store (snd (waitForIndexReady env (retries + 1) ?p2)) = store ?p2"
          "initialized (snd (waitForIndexReady env (retries + 1) ?p2)) = initialized ?p2"
        by blast
      have e: "waitForIndexReady env retries p = waitForIndexReady env (retries + 1) ?p2"
        using True po False by (subst waitForIndexReady.simps) simp
      have "adapter_log (snd (waitForIndexReady env retries p)) =
              adapter_log p @ (n1 @ Delay RETRY_DELAY_MS # n2)"
        unfolding e n2 by (simp add: log_event_def n1)
      moreover have "filter is_upsert_request (n1 @ Delay RETRY_DELAY_MS # n2) = []"
        using n1 n2 by simp
      ultimately show ?thesis
        unfolding e using f1 f2 by (auto simp: log_event_def)
    qed
  qed
qed

lemma validateExistingIndex_frame:
  "(\<exists>new. adapter_log (snd (validateExistingIndex env d p)) = adapter_log p @ new \<and>
          filter is_upsert_request new = []) \<and>
   store (snd (validateExistingIndex env d p)) = store p"
  by (simp add: validateExistingIndex_def log_event_def)

lemma init_frame:
  "(\<exists>new. adapter_log (snd (init env p)) = adapter_log p @ new \<and>
          filter is_upsert_request new = []) \<and>
   store (snd (init env p)) = store p"
proof -
  let ?p0 = "log_event ListIndexes p"
  let ?p1 = "log_event (CreateIndex (indexName env) INDEX_DIMENSION INDEX_METRIC) ?p0"
  from waitForIndexReady_frame [of env 0 ?p1] obtain nw where
    w: "adapter_log (snd (waitForIndexReady env 0 ?p1)) = adapter_log ?p1 @ nw"
      "filter is_upsert_request nw = []" "store (snd (waitForIndexReady env 0 ?p1)) = store ?p1"
    by blast
  obtain rd pd where d: "describeIndex env ?p0 = (rd, pd)" by (cases "describeIndex env ?p0")
  then have pd: "adapter_log pd = adapter_log ?p0 @ [DescribeIndex (indexName env)]" "store pd = store ?p0"
    by (auto simp: describeIndex_def)
  have v: "(\<exists>new. adapter_log (snd (validateExistingIndex env x pd)) = adapter_log pd @ new \<and>
          filter is_upsert_request new = []) \<and>
      store (snd (validateExistingIndex env x pd)) = store pd" for x
    by (rule validateExistingIndex_frame)
  show ?thesis
  proof (cases "listIndexes_result env")
    case (Inl e)
    then show ?thesis by (simp add: init_def log_event_def)
  next
    case (Inr names)
    show ?thesis
    proof (cases "indexName env \<in> set names")
      case False
      show ?thesis
      proof (cases "createIndex_result env")
        case (Some e)
        with Inr False show ?thesis by (simp add: init_def log_event_def)
      next
        case None
        obtain rw pw where rw: "waitForIndexReady env 0 ?p1 = (rw, pw)"
          by (cases "waitForIndexReady env 0 ?p1")
        with w have "adapter_log pw = adapter_log p @ (ListIndexes # CreateIndex (indexName env) INDEX_DIMENSION INDEX_METRIC # nw)"
          "store pw = store p"
          by (simp_all add: log_event_def)
        moreover have "filter is_upsert_request (ListIndexes # CreateIndex (indexName env) INDEX_DIMENSION INDEX_METRIC # nw) = []"
          using w by simp
        ultimately show ?thesis
          using Inr False None rw
          by (cases rw) (auto simp: init_def Let_def)
      qed
    next
      case True
      show ?thesis
      proof (cases rd)
        case (Inl e)
        with Inr True d pd show ?thesis by (simp add: init_def log_event_def)
      next
        case (Inr description)
        obtain rv pv where rv: "validateExistingIndex env description pd = (rv, pv)"
          by (cases "validateExistingIndex env description pd")
        with v [of description] obtain nv where
          nv: "adapter_log pv = adapter_log pd @ nv" "filter is_upsert_request nv = []"
            "store pv = store pd"
          by auto
        have "adapter_log pv = adapter_log p @ (ListIndexes # DescribeIndex (indexName env) # nv)"
          "store pv = store p"
          using nv pd by (simp_all add: log_event_def)
        moreover have "filter is_upsert_request (ListIndexes # DescribeIndex (indexName env) # nv) = []"
          using nv by simp
        ultimately show ?thesis
          using \<open>listIndexes_result env = Inr names\<close> True d Inr rv
          by (cases rv) (auto simp: init_def Let_def)
      qed
    qed
  qed
qed

lemma svc_init_frame:
  "(\<exists>new. adapter_log (snd (svc_init env p)) = adapter_log p @ new \<and>
          filter is_upsert_request new = []) \<and>
   store (snd (svc_init env p)) = store p"
proof -
  let ?p0 = "log_event ListIndexes p"
  let ?p1 = "log_event (CreateIndex (indexName env) INDEX_DIMENSION INDEX_METRIC) ?p0"
  from waitForIndexReady_frame [of env 0 ?p1] svc_wait_state [of 0 env ?p1] obtain nw where
    w: "adapter_log (snd (svc_wait env 0 ?p1)) = adapter_log ?p1 @ nw"
      "filter is_upsert_request nw = []" "store (snd (svc_wait env 0 ?p1)) = store ?p1"
    by auto
  obtain rd pd where d: "describeIndex env ?p0 = (rd, pd)" by (cases "describeIndex env ?p0")
  then have pd: "adapter_log pd = adapter_log ?p0 @ [DescribeIndex (indexName env)]" "store pd = store ?p0"
    by (auto simp: describeIndex_def)
  have v: "(\<exists>new. adapter_log (snd (validateExistingIndex env x pd)) = adapter_log pd @ new \<and>
          filter is_upsert_request new = []) \<and>
      store (snd (validateExistingIndex env x pd)) = store pd" for x
    by (rule validateExistingIndex_frame)
  show ?thesis
  proof (cases "listIndexes_result env")
    case (Inl e)
    then show ?thesis by (simp add: svc_init_def log_event_def)
  next
    case (Inr names)
    show ?thesis
    proof (cases "indexName env \<in> set names")
      case False
      show ?thesis
      proof (cases "createIndex_result env")
        case (Some e)
        with Inr False show ?thesis by (simp add: svc_init_def log_event_def)
      next
        case None
        obtain rw pw where rw: "svc_wait env 0 ?p1 = (rw, pw)"
          by (cases "svc_wait env 0 ?p1")
        with w have "adapter_log pw = adapter_log p @ (ListIndexes # CreateIndex (indexName env) INDEX_DIMENSION INDEX_METRIC # nw)"
          "store pw = store p"
          by (simp_all add: log_event_def)
        moreover have "filter is_upsert_request (ListIndexes # CreateIndex (indexName env) INDEX_DIMENSION INDEX_METRIC # nw) = []"
          using w by simp
        ultimately show ?thesis
          using Inr False None rw
          by (auto simp: svc_init_def Let_def)
      qed
    next
      case True
      show ?thesis
      proof (cases rd)
        case (Inl e)
        with Inr True d pd show ?thesis by (simp add: svc_init_def log_event_def)
      next
        case (Inr description)
        obtain rv pv where rv: "validateExistingIndex env description pd = (rv, pv)"
          by (cases "validateExistingIndex env description pd")
        with v [of description] obtain nv where
          nv: "adapter_log pv = adapter_log pd @ nv" "filter is_upsert_request nv = []"
            "store pv = store pd"
          by auto
        have "adapter_log pv = adapter_log p @ (ListIndexes # DescribeIndex (indexName env) # nv)"
          "store pv = store p"
          using nv pd by (simp_all add: log_event_def)
        moreover have "filter is_upsert_request (ListIndexes # DescribeIndex (indexName env) # nv) = []"
          using nv by simp
        ultimately show ?thesis
          using \<open>listIndexes_result env = Inr names\<close> True d Inr rv
          by (cases rv) (auto simp: svc_init_def Let_def)
      qed
    qed
  qed
qed

lemma ensureInitialized_frame:
  "(\<exists>new. adapter_log (snd (ensureInitialized env p)) = adapter_log p @ new \<and>
          filter is_upsert_request new = []) \<and>
   store (snd (ensureInitialized env p)) = store p"
proof (cases "initialized p")
  case True
  then show ?thesis by (simp add: ensureInitialized_def)
next
  case False
  let ?p0 = "log_event (LogWarn ''Pinecone client not initialized. Attempting initialization now...'') p"
  from init_frame [of env ?p0] obtain n where
    n: "adapter_log (snd (init env ?p0)) = adapter_log ?p0 @ n" "filter is_upsert_request n = []"
      "store (snd (init env ?p0)) = store ?p0"
    by blast
  obtain r p1 where i: "init env ?p0 = (r, p1)" by (cases "init env ?p0")
  with n have "adapter_log p1 = adapter_log p @ (LogWarn ''Pinecone client not initialized. Attempting initialization now...'' # n)"
    "store p1 = store p"
    by (simp_all add: log_event_def)
  moreover have "filter is_upsert_request (LogWarn ''Pinecone client not initialized. Attempting initialization now...'' # n) = []"
    using n by simp
  ultimately show ?thesis
    using False i by (cases r) (auto simp: ensureInitialized_def)
qed

lemma svc_ensureInitialized_frame:
  "(\<exists>new. adapter_log (snd (svc_ensureInitialized what env p)) = adapter_log p @ new \<and>
          filter is_upsert_request new = []) \<and>
   store (snd (svc_ensureInitialized what env p)) = store p"
proof (cases "initialized p")
  case True
  then show ?thesis by (simp add: svc_ensureInitialized_def)
next
  case False
  let ?p0 = "log_event (LogWarn ''Pinecone client not initialized. Attempting initialization now...'') p"
  from svc_init_frame [of env ?p0] obtain n where
    n: "adapter_log (snd (svc_init env ?p0)) = adapter_log ?p0 @ n" "filter is_upsert_request n = []"
      "store (snd (svc_init env ?p0)) = store ?p0"
    by blast
  obtain r p1 where i: "svc_init env ?p0 = (r, p1)" by (cases "svc_init env ?p0")
  with n have "adapter_log p1 = adapter_log p @ (LogWarn ''Pinecone client not initialized. Attempting initialization now...'' # n)"
    "store p1 = store p"
    by (simp_all add: log_event_def)
  moreover have "filter is_upsert_request (LogWarn ''Pinecone client not initialized. Attempting initialization now...'' # n) = []"
    using n by simp
  ultimately show ?thesis
    using False i by (cases r) (auto simp: svc_ensureInitialized_def)
qed

text \<open>
  C6 (as the code has it). In the version with namespaces, \<open>upsert\<close> of an empty list
  returns at once: it logs one warning and sends nothing to the remote service, whether
  the adapter is initialised or not. In src/services/pinecone.service.ts, \<open>upsert\<close> of
  an empty list is exactly the lazy initialisation: a no-op on an initialised adapter,
  and otherwise the requests of \<open>init\<close>; in no case is an upsert request sent or the index
  changed.
\<close>

theorem upsert_empty_no_contact:
  "upsert env [] p =
     (Inr (), p\<lparr>adapter_log := adapter_log p @ [LogWarn ''No vectors provided for upserting'']\<rparr>) \<and>
   filter is_remote_request (adapter_log (snd (upsert env [] p))) =
     filter is_remote_request (adapter_log p) \<and>
   svc_upsert env [] p = svc_ensureInitialized ''upsert'' env p \<and>
   (initialized p \<longrightarrow> svc_upsert env [] p = (Inr (), p)) \<and>
   store (snd (svc_upsert env [] p)) = store p \<and>
   filter is_upsert_request (adapter_log (snd (svc_upsert env [] p))) =
     filter is_upsert_request (adapter_log p)"
proof -
  have a: "upsert env [] p =
     (Inr (), p\<lparr>adapter_log := adapter_log p @ [LogWarn ''No vectors provided for upserting'']\<rparr>)"
    by (simp add: upsert_def log_event_def)
  have b: "filter is_remote_request (adapter_log (snd (upsert env [] p))) =
     filter is_remote_request (adapter_log p)"
    unfolding a by simp
  have c: "svc_upsert env [] p = svc_ensureInitialized ''upsert'' env p"
    by (cases "svc_ensureInitialized ''upsert'' env p")
       (auto simp: svc_upsert_def svc_upsert_batches.simps split: sum.splits)
  have d: "initialized p \<longrightarrow> svc_upsert env [] p = (Inr (), p)"
    unfolding c by (simp add: svc_ensureInitialized_def)
  from svc_ensureInitialized_frame [of "''upsert''" env p]
  have e: "store (snd (svc_upsert env [] p)) = store p"
    and f: "filter is_upsert_request (adapter_log (snd (svc_upsert env [] p))) =
     filter is_upsert_request (adapter_log p)"
    unfolding c by auto
  show ?thesis by (intro conjI a b c d e f)
qed

theorem upsert_empty_no_contact_witness:
  "initialized (fresh_adapter\<lparr>initialized := True\<rparr>) \<and>
   svc_upsert example_env [] (fresh_adapter\<lparr>initialized := True\<rparr>) =
     (Inr (), fresh_adapter\<lparr>initialized := True\<rparr>) \<and>
   upsert example_env [] fresh_adapter =
     (Inr (), fresh_adapter\<lparr>adapter_log := [LogWarn ''No vectors provided for upserting'']\<rparr>)"
proof -
  note t = upsert_empty_no_contact [of example_env "fresh_adapter\<lparr>initialized := True\<rparr>"]
  have i: "initialized (fresh_adapter\<lparr>initialized := True\<rparr>)" by simp
  from t i have s: "svc_upsert example_env [] (fresh_adapter\<lparr>initialized := True\<rparr>) =
     (Inr (), fresh_adapter\<lparr>initialized := True\<rparr>)"
    by blast
  have l: "adapter_log fresh_adapter = []" by (simp add: fresh_adapter_def)
  have u: "upsert example_env [] fresh_adapter =
     (Inr (), fresh_adapter\<lparr>adapter_log := [LogWarn ''No vectors provided for upserting'']\<rparr>)"
    using upsert_empty_no_contact [of example_env fresh_adapter, THEN conjunct1] l by simp
  show ?thesis by (intro conjI i s u)
qed

text \<open>
  C6 as stated fails for src/services/pinecone.service.ts: on an adapter that is not yet
  initialised, \<open>upsert([])\<close> first runs \<open>init\<close>, which lists the indexes and describes the
  index.
\<close>

theorem svc_upsert_empty_contacts_remote_counterexample:
  "fst (svc_upsert example_env_ready [] fresh_adapter) = Inr () \<and>
   adapter_log (snd (svc_upsert example_env_ready [] fresh_adapter)) =
     [LogWarn ''Pinecone client not initialized. Attempting initialization now...'',
      ListIndexes, DescribeIndex ''code''] \<and>
   filter is_remote_request (adapter_log (snd (svc_upsert example_env_ready [] fresh_adapter))) \<noteq>
     filter is_remote_request (adapter_log fresh_adapter)"
  by (simp add: svc_upsert_def svc_ensureInitialized_def svc_init_def describeIndex_def
      validateExistingIndex_def example_env_ready_def example_env_def fresh_adapter_def
      log_event_def svc_upsert_batches.simps INDEX_DIMENSION_def INDEX_METRIC_def Let_def)

lemma getNamespaceForUser_inj: "(getNamespaceForUser a = getNamespaceForUser b) = (a = b)"
  by (simp add: getNamespaceForUser_def)

lemma tenant_namespace_normalize [simp]:
  "tenant_namespace (normalize_commit v) = tenant_namespace v"
  by (simp add: tenant_namespace_def normalize_commit_def)

lemma userId_normalize [simp]:
  "m_userId (vec_metadata (normalize_commit v)) = m_userId (vec_metadata v)"
  by (simp add: normalize_commit_def)

lemma store_isolated_append:
  "store_isolated (xs @ ys) = (store_isolated xs \<and> store_isolated ys)"
  by (simp add: store_isolated_def)

lemma store_isolated_filter: "store_isolated st \<Longrightarrow> store_isolated (filter P st)"
  by (induction st) (auto simp: store_isolated_def)

lemma remote_upsert_isolated:
  "store_isolated st \<Longrightarrow> list_all (\<lambda>v. ns = tenant_namespace v) batch \<Longrightarrow>
   store_isolated (remote_upsert ns batch st)"
  unfolding remote_upsert_def
proof (induction batch arbitrary: st)
  case Nil
  then show ?case by simp
next
  case (Cons v batch)
  have "store_isolated (filter (\<lambda>(n, u). \<not> (n = ns \<and> vec_id u = vec_id v)) st @ [(ns, v)])"
    using Cons.prems by (simp add: store_isolated_append store_isolated_filter)
       (simp add: store_isolated_def)
  moreover from Cons.prems(2) have "list_all (\<lambda>v. ns = tenant_namespace v) batch"
    by (cases "ns = tenant_namespace v") simp_all
  ultimately have "store_isolated
     (fold (\<lambda>v s. filter (\<lambda>(n, u). \<not> (n = ns \<and> vec_id u = vec_id v)) s @ [(ns, v)]) batch
        (filter (\<lambda>(n, u). \<not> (n = ns \<and> vec_id u = vec_id v)) st @ [(ns, v)]))"
    by (rule Cons.IH)
  then show ?case by simp
qed

lemma processBatch_scoped:
  assumes "group_members_ok vs user userVectors"
  shows "adapter_log (snd (processBatch env (getNamespaceForUser user) userVectors i n t p)) =
           adapter_log p @ [UpsertRequest (getNamespaceForUser user)
              (map normalize_commit (take n (drop i userVectors)))] \<and>
         request_scoped vs (UpsertRequest (getNamespaceForUser user)
              (map normalize_commit (take n (drop i userVectors)))) \<and>
         (store_isolated (store p) \<longrightarrow>
            store_isolated (store (snd (processBatch env (getNamespaceForUser user) userVectors i n t p))))"
proof -
  let ?batch = "map normalize_commit (take n (drop i userVectors))"
  have sub: "set (take n (drop i userVectors)) \<subseteq> set userVectors"
    by (meson set_drop_subset set_take_subset subset_trans)
  have m: "\<forall>b \<in> set ?batch. getNamespaceForUser user = tenant_namespace b \<and>
             b \<in> set (map normalize_commit vs)"
  proof
    fix b assume "b \<in> set ?batch"
    then obtain v where v: "v \<in> set userVectors" "b = normalize_commit v" using sub by auto
    with assms have "m_userId (vec_metadata v) = user" "v \<in> set vs"
      by (auto simp: group_members_ok_def)
    with v show "getNamespaceForUser user = tenant_namespace b \<and> b \<in> set (map normalize_commit vs)"
      by (simp add: tenant_namespace_def)
  qed
  then have sc: "request_scoped vs (UpsertRequest (getNamespaceForUser user) ?batch)"
    by (simp add: list_all_iff)
  have "list_all (\<lambda>v. getNamespaceForUser user = tenant_namespace v) ?batch"
    using m by (simp add: list_all_iff)
  then have st: "store_isolated (store p) \<longrightarrow>
      store_isolated (remote_upsert (getNamespaceForUser user) ?batch (store p))"
    by (simp add: remote_upsert_isolated)
  show ?thesis
    using sc st by (auto simp: processBatch_def Let_def split: option.splits)
qed

lemma upsert_batches_scoped:
  assumes "group_members_ok vs user userVectors"
  shows "(\<exists>new. adapter_log (snd (upsert_batches env (getNamespaceForUser user) userVectors i p)) =
              adapter_log p @ new \<and> list_all (request_scoped vs) new) \<and>
         (store_isolated (store p) \<longrightarrow>
            store_isolated (store (snd (upsert_batches env (getNamespaceForUser user) userVectors i p))))"
  using assms
proof (induction env "getNamespaceForUser user" userVectors i p rule: upsert_batches.induct)
  case (1 env userVectors i p)
  let ?ns = "getNamespaceForUser user"
  show ?case
  proof (cases "i < length userVectors")
    case False
    then show ?thesis by (subst (1 2) upsert_batches.simps) simp
  next
    case True
    obtain r p1 where pb: "processBatch env ?ns userVectors i BATCH_SIZE (length userVectors) p = (r, p1)"
      by (cases "processBatch env ?ns userVectors i BATCH_SIZE (length userVectors) p")
    from processBatch_scoped [OF "1.prems", of env i BATCH_SIZE "length userVectors" p] pb
    have l1: "adapter_log p1 = adapter_log p @ [UpsertRequest ?ns
              (map normalize_commit (take BATCH_SIZE (drop i userVectors)))]"
      and s1: "request_scoped vs (UpsertRequest ?ns
              (map normalize_commit (take BATCH_SIZE (drop i userVectors))))"
      and i1: "store_isolated (store p) \<longrightarrow> store_isolated (store p1)"
      by auto
    show ?thesis
    proof (cases r)
      case (Inl e)
      have "upsert_batches env ?ns userVectors i p = (Inl e, p1)"
        using True pb Inl by (subst upsert_batches.simps) simp
      then show ?thesis using l1 s1 i1 by simp
    next
      case (Inr u)
      with pb have pb': "(Inr u, p1) = processBatch env ?ns userVectors i BATCH_SIZE (length userVectors) p"
        by simp
      from "1.hyps" [OF True pb' refl "1.prems"] obtain n2 where
        l2: "adapter_log (snd (upsert_batches env ?ns userVectors (i + BATCH_SIZE) p1)) =
              adapter_log p1 @ n2" "list_all (request_scoped vs) n2"
        and i2: "store_isolated (store p1) \<longrightarrow>
            store_isolated (store (snd (upsert_batches env ?ns userVectors (i + BATCH_SIZE) p1)))"
        by blast
      have e: "upsert_batches env ?ns userVectors i p =
                 upsert_batches env ?ns userVectors (i + BATCH_SIZE) p1"
        using True pb Inr by (subst upsert_batches.simps) simp
      have "adapter_log (snd (upsert_batches env ?ns userVectors i p)) =
              adapter_log p @ (UpsertRequest ?ns
              (map normalize_commit (take BATCH_SIZE (drop i userVectors))) # n2)"
        unfolding e l2 l1 by simp
      moreover have "list_all (request_scoped vs) (UpsertRequest ?ns
              (map normalize_commit (take BATCH_SIZE (drop i userVectors))) # n2)"
        using s1 l2 by simp
      ultimately show ?thesis unfolding e using i1 i2 by blast
    qed
  qed
qed

lemma upsert_users_scoped:
  assumes "\<forall>(user, g) \<in> set groups. group_members_ok vs user g"
  shows "(\<exists>new. adapter_log (snd (upsert_users env groups p)) = adapter_log p @ new \<and>
               list_all (request_scoped vs) new) \<and>
         (store_isolated (store p) \<longrightarrow> store_isolated (store (snd (upsert_users env groups p))))"
  using assms
proof (induction groups arbitrary: p)
  case Nil
  then show ?case by simp
next
  case (Cons ug groups)
  obtain user g where ug: "ug = (user, g)" by (cases ug)
  with Cons.prems have ok: "group_members_ok vs user g" by simp
  obtain r p1 where ub: "upsert_batches env (getNamespaceForUser user) g 0 p = (r, p1)"
    by (cases "upsert_batches env (getNamespaceForUser user) g 0 p")
  from upsert_batches_scoped [OF ok, of env 0 p] ub obtain n1 where
    l1: "adapter_log p1 = adapter_log p @ n1" "list_all (request_scoped vs) n1"
    and i1: "store_isolated (store p) \<longrightarrow> store_isolated (store p1)"
    by auto
  show ?case
  proof (cases r)
    case (Inl e)
    with ub ug l1 i1 show ?thesis by auto
  next
    case (Inr u)
    from Cons.prems have "\<forall>(user, g) \<in> set groups. group_members_ok vs user g" by simp
    from Cons.IH [OF this, of p1] obtain n2 where
      l2: "adapter_log (snd (upsert_users env groups p1)) = adapter_log p1 @ n2"
        "list_all (request_scoped vs) n2"
      and i2: "store_isolated (store p1) \<longrightarrow> store_isolated (store (snd (upsert_users env groups p1)))"
      by blast
    have e: "upsert_users env (ug # groups) p = upsert_users env groups p1"
      using ub ug Inr by simp
    have "adapter_log (snd (upsert_users env (ug # groups) p)) = adapter_log p @ (n1 @ n2)"
      unfolding e l2 l1 by simp
    moreover have "list_all (request_scoped vs) (n1 @ n2)" using l1 l2 by simp
    ultimately show ?thesis unfolding e using i1 i2 by blast
  qed
qed

lemma append_to_group_ok:
  assumes "\<forall>(user, g) \<in> set acc. group_members_ok vs user g"
    and "v \<in> set vs"
  shows "\<forall>(user, g) \<in> set (append_to_group (m_userId (vec_metadata v)) v acc).
           group_members_ok vs user g"
  using assms
proof (induction acc)
  case Nil
  then show ?case by (simp add: group_members_ok_def)
next
  case (Cons kg acc)
  obtain k g where kg: "kg = (k, g)" by (cases kg)
  from Cons.prems kg have g: "group_members_ok vs k g"
    and rest: "\<forall>(user, g) \<in> set acc. group_members_ok vs user g"
    by simp_all
  show ?case
  proof (cases "k = m_userId (vec_metadata v)")
    case True
    have "group_members_ok vs k (g @ [v])"
      using g True Cons.prems(2) by (simp add: group_members_ok_def)
    then show ?thesis using kg True rest by simp
  next
    case False
    from Cons.IH [OF rest Cons.prems(2)] show ?thesis using kg False g by simp
  qed
qed

lemma group_by_user_ok:
  assumes "\<forall>(user, g) \<in> set acc. group_members_ok vs user g"
    and "set ws \<subseteq> set vs"
    and "group_by_user acc ws = Inr groups"
  shows "\<forall>(user, g) \<in> set groups. group_members_ok vs user g"
  using assms
proof (induction ws arbitrary: acc)
  case Nil
  then show ?case by simp
next
  case (Cons w ws)
  from Cons.prems(3) obtain acc' where s: "group_step acc w = Inr acc'"
    and g: "group_by_user acc' ws = Inr groups"
    by (auto split: sum.splits)
  from s have acc': "acc' = append_to_group (m_userId (vec_metadata w)) w acc"
    by (auto simp: group_step_def Let_def split: if_splits)
  have "\<forall>(user, g) \<in> set acc'. group_members_ok vs user g"
    unfolding acc' using Cons.prems(1,2) by (intro append_to_group_ok) auto
  from Cons.IH [OF this _ g] Cons.prems(2) show ?case by simp
qed

lemma object_entries_subset: "set (object_entries obj) \<subseteq> set obj"
  by (auto simp: object_entries_def)

lemma upsert_scoped:
  "(\<exists>new. adapter_log (snd (upsert env vectors p)) = adapter_log p @ new \<and>
         list_all (request_scoped vectors) new) \<and>
   (store_isolated (store p) \<longrightarrow> store_isolated (store (snd (upsert env vectors p))))"
proof (cases "vectors = []")
  case True
  then show ?thesis by (simp add: upsert_def log_event_def)
next
  case False
  obtain r p1 where ei: "ensureInitialized env p = (r, p1)" by (cases "ensureInitialized env p")
  from ensureInitialized_frame [of env p] ei obtain n1 where
    l1: "adapter_log p1 = adapter_log p @ n1" "filter is_upsert_request n1 = []"
    and s1: "store p1 = store p"
    by auto
  have sc1: "list_all (request_scoped vectors) n1"
    unfolding list_all_iff
  proof
    fix ev assume "ev \<in> set n1"
    with l1(2) have "\<not> is_upsert_request ev" by (auto simp: filter_empty_conv)
    then show "request_scoped vectors ev" by (cases ev) simp_all
  qed
  show ?thesis
  proof (cases r)
    case (Inl e)
    with False ei have "upsert env vectors p = (Inl e, p1)" by (simp add: upsert_def)
    then show ?thesis using l1 sc1 s1 by simp
  next
    case (Inr u)
    show ?thesis
    proof (cases "group_by_user [] vectors")
      case (Inl e)
      with False ei Inr have "upsert env vectors p = (Inl e, p1)" by (simp add: upsert_def)
      then show ?thesis using l1 sc1 s1 by simp
    next
      case groups: (Inr vectorsByUser)
      have e0: "\<forall>(user, g) \<in> set []. group_members_ok vectors user g" by simp
      have "\<forall>(user, g) \<in> set vectorsByUser. group_members_ok vectors user g"
        by (rule group_by_user_ok [OF e0 subset_refl groups])
      then have ok: "\<forall>(user, g) \<in> set (object_entries vectorsByUser). group_members_ok vectors user g"
        using object_entries_subset [of vectorsByUser] by blast
      from upsert_users_scoped [OF ok, of env p1] obtain n2 where
        l2: "adapter_log (snd (upsert_users env (object_entries vectorsByUser) p1)) = adapter_log p1 @ n2"
          "list_all (request_scoped vectors) n2"
        and i2: "store_isolated (store p1) \<longrightarrow>
            store_isolated (store (snd (upsert_users env (object_entries vectorsByUser) p1)))"
        by blast
      have e: "upsert env vectors p = upsert_users env (object_entries vectorsByUser) p1"
        using False ei Inr groups by (simp add: upsert_def)
      have "adapter_log (snd (upsert env vectors p)) = adapter_log p @ (n1 @ n2)"
        unfolding e l2 l1 by simp
      moreover have "list_all (request_scoped vectors) (n1 @ n2)" using sc1 l2 by simp
      ultimately show ?thesis unfolding e using i2 s1 by auto
    qed
  qed
qed

lemma remote_query_subset:
  "set (remote_query env ns qv k flt st) \<subseteq> set (namespace_records ns st)"
proof -
  have "set (take k (rev (sort_key (score env qv) (filter flt (namespace_records ns st)))))
          \<subseteq> set (rev (sort_key (score env qv) (filter flt (namespace_records ns st))))"
    by (rule set_take_subset)
  then show ?thesis by (auto simp: remote_query_def)
qed

lemma query_own_tenant:
  assumes "store_isolated (store p)"
    and "fst (query env qv user k flt p) = Inr matches"
    and "v \<in> set matches"
  shows "m_userId (vec_metadata v) = user"
proof -
  obtain r p1 where ei: "ensureInitialized env p = (r, p1)" by (cases "ensureInitialized env p")
  with ensureInitialized_frame [of env p] have s1: "store p1 = store p" by auto
  from assms(2) ei have "matches = remote_query env (getNamespaceForUser user) qv k flt (store p)"
    by (auto simp: query_def Let_def log_event_def s1 split: sum.splits option.splits)
  with assms(3) remote_query_subset have "v \<in> set (namespace_records (getNamespaceForUser user) (store p))"
    by blast
  then have "(getNamespaceForUser user, v) \<in> set (store p)"
    by (auto simp: namespace_records_def)
  with assms(1) have "getNamespaceForUser user = tenant_namespace v"
    by (auto simp: store_isolated_def list_all_iff)
  then show ?thesis by (simp add: tenant_namespace_def getNamespaceForUser_inj)
qed

lemma delivered_append: "delivered ns v (xs @ ys) = (delivered ns v xs \<or> delivered ns v ys)"
  by (simp add: delivered_def)

lemma delivered_Cons: "delivered ns v (x # xs) = (carries ns v x \<or> delivered ns v xs)"
  by (simp add: delivered_def)

lemma processBatch_log:
  "adapter_log (snd (processBatch env ns g i n t p)) =
     adapter_log p @ [UpsertRequest ns (map normalize_commit (take n (drop i g)))]"
  by (simp add: processBatch_def Let_def split: option.splits)

lemma nth_in_batch:
  assumes "i \<le> k" "k < i + n" "k < length g"
  shows "g ! k \<in> set (take n (drop i g))"
proof -
  have "k - i < length (take n (drop i g))" using assms by auto
  moreover have "take n (drop i g) ! (k - i) = g ! k" using assms by simp
  ultimately show ?thesis by (metis nth_mem)
qed

lemma upsert_batches_delivered:
  assumes "fst (upsert_batches env ns g i p) = Inr ()"
  shows "\<exists>new. adapter_log (snd (upsert_batches env ns g i p)) = adapter_log p @ new \<and>
           (\<forall>k. i \<le> k \<and> k < length g \<longrightarrow> delivered ns (g ! k) new)"
  using assms
proof (induction env ns g i p rule: upsert_batches.induct)
  case (1 env ns g i p)
  show ?case
  proof (cases "i < length g")
    case False
    then show ?thesis by (subst upsert_batches.simps) auto
  next
    case True
    obtain r p1 where pb: "processBatch env ns g i BATCH_SIZE (length g) p = (r, p1)"
      by (cases "processBatch env ns g i BATCH_SIZE (length g) p")
    let ?req = "UpsertRequest ns (map normalize_commit (take BATCH_SIZE (drop i g)))"
    have l1: "adapter_log p1 = adapter_log p @ [?req]"
      using processBatch_log [of env ns g i BATCH_SIZE "length g" p] pb by simp
    from "1.prems" True pb obtain u where r: "r = Inr u"
      by (subst (asm) upsert_batches.simps) (cases r; simp)
    have e: "upsert_batches env ns g i p = upsert_batches env ns g (i + BATCH_SIZE) p1"
      using True pb r by (subst upsert_batches.simps) simp
    have pb': "(r, p1) = processBatch env ns g i BATCH_SIZE (length g) p" using pb by simp
    from "1.prems" e have "fst (upsert_batches env ns g (i + BATCH_SIZE) p1) = Inr ()" by simp
    from "1.IH" [OF True pb' r this] obtain n2 where
      n2: "adapter_log (snd (upsert_batches env ns g (i + BATCH_SIZE) p1)) = adapter_log p1 @ n2"
        "\<forall>k. i + BATCH_SIZE \<le> k \<and> k < length g \<longrightarrow> delivered ns (g ! k) n2"
      by blast
    have a: "adapter_log (snd (upsert_batches env ns g i p)) = adapter_log p @ (?req # n2)"
      unfolding e n2 l1 by simp
    have b: "\<forall>k. i \<le> k \<and> k < length g \<longrightarrow> delivered ns (g ! k) (?req # n2)"
    proof (intro allI impI)
      fix k assume k: "i \<le> k \<and> k < length g"
      show "delivered ns (g ! k) (?req # n2)"
      proof (cases "k < i + BATCH_SIZE")
        case True
        with k have "g ! k \<in> set (take BATCH_SIZE (drop i g))" by (intro nth_in_batch) auto
        then show ?thesis by (simp add: delivered_Cons)
      next
        case False
        with k n2(2) have "delivered ns (g ! k) n2" by simp
        then show ?thesis by (simp add: delivered_Cons)
      qed
    qed
    show ?thesis using a b by blast
  qed
qed

lemma upsert_users_delivered:
  assumes "fst (upsert_users env groups p) = Inr ()"
  shows "\<exists>new. adapter_log (snd (upsert_users env groups p)) = adapter_log p @ new \<and>
           (\<forall>(user, g) \<in> set groups. \<forall>x \<in> set g. delivered (getNamespaceForUser user) x new)"
  using assms
proof (induction groups arbitrary: p)
  case Nil
  then show ?case by simp
next
  case (Cons ug groups)
  obtain user g where ug: "ug = (user, g)" by (cases ug)
  obtain r p1 where ub: "upsert_batches env (getNamespaceForUser user) g 0 p = (r, p1)"
    by (cases "upsert_batches env (getNamespaceForUser user) g 0 p")
  from Cons.prems ug ub obtain u where r: "r = Inr u" by (cases r) auto
  then have r': "r = Inr ()" by simp
  have e: "upsert_users env (ug # groups) p = upsert_users env groups p1"
    using ub ug r by simp
  from upsert_batches_delivered [of env "getNamespaceForUser user" g 0 p] ub r'
  obtain n1 where n1: "adapter_log p1 = adapter_log p @ n1"
    "\<forall>k. k < length g \<longrightarrow> delivered (getNamespaceForUser user) (g ! k) n1"
    by auto
  from Cons.prems e have "fst (upsert_users env groups p1) = Inr ()" by simp
  from Cons.IH [OF this] obtain n2 where
    n2: "adapter_log (snd (upsert_users env groups p1)) = adapter_log p1 @ n2"
      "\<forall>(user, g) \<in> set groups. \<forall>x \<in> set g. delivered (getNamespaceForUser user) x n2"
    by blast
  have a: "adapter_log (snd (upsert_users env (ug # groups) p)) = adapter_log p @ (n1 @ n2)"
    unfolding e n2 n1 by simp
  have g1: "\<forall>x \<in> set g. delivered (getNamespaceForUser user) x (n1 @ n2)"
    using n1(2) by (auto simp: in_set_conv_nth delivered_append)
  have g2: "\<forall>(user, g) \<in> set groups. \<forall>x \<in> set g. delivered (getNamespaceForUser user) x (n1 @ n2)"
    using n2(2) by (auto simp: delivered_append)
  have "\<forall>(user, g) \<in> set (ug # groups). \<forall>x \<in> set g. delivered (getNamespaceForUser user) x (n1 @ n2)"
    using g1 g2 ug by simp
  with a show ?case by blast
qed

lemma grouped_Cons:
  "grouped ((k, g) # acc) x = ((k = m_userId (vec_metadata x) \<and> x \<in> set g) \<or> grouped acc x)"
  by (simp add: grouped_def)

lemma grouped_Nil: "\<not> grouped [] x"
  by (simp add: grouped_def)

lemma append_to_group_new: "grouped (append_to_group (m_userId (vec_metadata v)) v acc) v"
  by (induction acc) (auto simp: grouped_Cons grouped_Nil)

lemma append_to_group_old: "grouped acc x \<Longrightarrow> grouped (append_to_group user v acc) x"
  by (induction acc) (auto simp: grouped_Cons grouped_Nil)

lemma group_by_user_complete:
  assumes "group_by_user acc ws = Inr groups"
  shows "(\<forall>x. grouped acc x \<longrightarrow> grouped groups x) \<and> (\<forall>w \<in> set ws. grouped groups w)"
  using assms
proof (induction ws arbitrary: acc)
  case Nil
  then show ?case by simp
next
  case (Cons w ws)
  from Cons.prems obtain acc' where s: "group_step acc w = Inr acc'"
    and g: "group_by_user acc' ws = Inr groups"
    by (auto split: sum.splits)
  from s have acc': "acc' = append_to_group (m_userId (vec_metadata w)) w acc"
    by (auto simp: group_step_def Let_def split: if_splits)
  from Cons.IH [OF g] have ih: "\<forall>x. grouped acc' x \<longrightarrow> grouped groups x"
    "\<forall>w \<in> set ws. grouped groups w" by simp_all
  have "grouped acc' w" unfolding acc' by (rule append_to_group_new)
  with ih(1) have w: "grouped groups w" by simp
  have "\<forall>x. grouped acc x \<longrightarrow> grouped groups x"
    using ih(1) append_to_group_old unfolding acc' by blast
  with w ih(2) show ?case by simp
qed

lemma object_entries_set: "set (object_entries obj) = set obj"
  by (auto simp: object_entries_def)

lemma upsert_delivers:
  assumes "fst (upsert env vectors p) = Inr ()"
  shows "\<exists>new. adapter_log (snd (upsert env vectors p)) = adapter_log p @ new \<and>
           (\<forall>v \<in> set vectors. delivered (tenant_namespace v) v new)"
proof (cases "vectors = []")
  case True
  then show ?thesis by (simp add: upsert_def log_event_def)
next
  case False
  obtain r p1 where ei: "ensureInitialized env p = (r, p1)" by (cases "ensureInitialized env p")
  from ensureInitialized_frame [of env p] ei obtain n1 where
    l1: "adapter_log p1 = adapter_log p @ n1" by auto
  from assms False ei obtain u where r: "r = Inr u"
    by (cases r) (auto simp: upsert_def)
  from assms False ei r obtain groups where gr: "group_by_user [] vectors = Inr groups"
    by (cases "group_by_user [] vectors") (auto simp: upsert_def)
  have e: "upsert env vectors p = upsert_users env (object_entries groups) p1"
    using False ei r gr by (simp add: upsert_def)
  from assms e have "fst (upsert_users env (object_entries groups) p1) = Inr ()" by simp
  from upsert_users_delivered [OF this] obtain n2 where
    n2: "adapter_log (snd (upsert_users env (object_entries groups) p1)) = adapter_log p1 @ n2"
      "\<forall>(user, g) \<in> set (object_entries groups). \<forall>x \<in> set g.
          delivered (getNamespaceForUser user) x n2"
    by blast
  have a: "adapter_log (snd (upsert env vectors p)) = adapter_log p @ (n1 @ n2)"
    unfolding e n2 l1 by simp
  have b: "\<forall>v \<in> set vectors. delivered (tenant_namespace v) v (n1 @ n2)"
  proof
    fix v assume "v \<in> set vectors"
    with group_by_user_complete [OF gr] have "grouped groups v" by simp
    then obtain g where "(m_userId (vec_metadata v), g) \<in> set (object_entries groups)" "v \<in> set g"
      by (auto simp: grouped_def list_ex_iff object_entries_set)
    with n2(2) have "delivered (getNamespaceForUser (m_userId (vec_metadata v))) v n2" by blast
    then show "delivered (tenant_namespace v) v (n1 @ n2)"
      by (simp add: tenant_namespace_def delivered_append)
  qed
  show ?thesis using a b by blast
qed

text \<open>
  C1 (as the code has it). In the version with namespaces, every upsert request that a
  call of \<open>upsert\<close> sends carries records of the call's vectors only, each to the namespace
  \<open>user_<userId>\<close> of its own metadata, and a call that succeeds has sent every vector to
  its tenant's namespace; so the index stays tenant-isolated, the namespaces of two
  different tenants differ, and a later query for a tenant returns only records whose
  metadata carries that tenant's id.
\<close>

theorem upsert_tenant_isolation:
  assumes "store_isolated (store p)"
  shows "(\<exists>new. adapter_log (snd (upsert env vectors p)) = adapter_log p @ new \<and>
               list_all (request_scoped vectors) new \<and>
               (fst (upsert env vectors p) = Inr () \<longrightarrow>
                  (\<forall>v \<in> set vectors. delivered (tenant_namespace v) v new))) \<and>
         store_isolated (store (snd (upsert env vectors p))) \<and>
         (getNamespaceForUser a = getNamespaceForUser b \<longleftrightarrow> a = b) \<and>
         (fst (query env' qv user k flt (snd (upsert env vectors p))) = Inr matches \<longrightarrow>
            (\<forall>v \<in> set matches. m_userId (vec_metadata v) = user))"
proof -
  note u = upsert_scoped [of env vectors p]
  from u obtain new where
    n: "adapter_log (snd (upsert env vectors p)) = adapter_log p @ new"
      "list_all (request_scoped vectors) new"
    by blast
  have dl: "\<forall>v \<in> set vectors. delivered (tenant_namespace v) v new"
    if ok: "fst (upsert env vectors p) = Inr ()"
  proof -
    from upsert_delivers [OF ok] obtain new' where
      n': "adapter_log (snd (upsert env vectors p)) = adapter_log p @ new'"
        "\<forall>v \<in> set vectors. delivered (tenant_namespace v) v new'"
      by blast
    from n(1) n'(1) have "new' = new" by simp
    with n'(2) show ?thesis by simp
  qed
  have a: "\<exists>new. adapter_log (snd (upsert env vectors p)) = adapter_log p @ new \<and>
               list_all (request_scoped vectors) new \<and>
               (fst (upsert env vectors p) = Inr () \<longrightarrow>
                  (\<forall>v \<in> set vectors. delivered (tenant_namespace v) v new))"
    using n dl by blast
  from u assms have b: "store_isolated (store (snd (upsert env vectors p)))" by blast
  have c: "getNamespaceForUser a = getNamespaceForUser b \<longleftrightarrow> a = b"
    by (rule getNamespaceForUser_inj)
  have d: "fst (query env' qv user k flt (snd (upsert env vectors p))) = Inr matches \<longrightarrow>
            (\<forall>v \<in> set matches. m_userId (vec_metadata v) = user)"
    using query_own_tenant [OF b] by blast
  show ?thesis by (intro conjI a b c d)
qed

lemma example_upsert:
  "upsert example_env_ready [example_vector ''v1'' ''alice'', example_vector ''v2'' ''bob'',
       example_vector ''v3'' ''alice''] fresh_adapter =
   (Inr (),
    \<lparr>initialized = True,
     store = [(''user_alice'', example_vector ''v1'' ''alice''),
              (''user_alice'', example_vector ''v3'' ''alice''),
              (''user_bob'', example_vector ''v2'' ''bob'')],
     adapter_log =
       [LogWarn ''Pinecone client not initialized. Attempting initialization now...'',
        ListIndexes, DescribeIndex ''code'',
        UpsertRequest ''user_alice'' [example_vector ''v1'' ''alice'', example_vector ''v3'' ''alice''],
        UpsertRequest ''user_bob'' [example_vector ''v2'' ''bob'']],
     n_describe = 1, n_upsert = 2\<rparr>)"
  by code_simp

theorem upsert_tenant_isolation_witness:
  "store_isolated (store fresh_adapter) \<and>
   fst (upsert example_env_ready
      [example_vector ''v1'' ''alice'', example_vector ''v2'' ''bob'', example_vector ''v3'' ''alice'']
      fresh_adapter) = Inr () \<and>
   store (snd (upsert example_env_ready
      [example_vector ''v1'' ''alice'', example_vector ''v2'' ''bob'', example_vector ''v3'' ''alice'']
      fresh_adapter)) =
     [(''user_alice'', example_vector ''v1'' ''alice''),
      (''user_alice'', example_vector ''v3'' ''alice''),
      (''user_bob'', example_vector ''v2'' ''bob'')] \<and>
   store_isolated (store (snd (upsert example_env_ready
      [example_vector ''v1'' ''alice'', example_vector ''v2'' ''bob'', example_vector ''v3'' ''alice'']
      fresh_adapter))) \<and>
   fst (query example_env_ready [] ''alice'' 5 (\<lambda>v. True)
      (snd (upsert example_env_ready
        [example_vector ''v1'' ''alice'', example_vector ''v2'' ''bob'', example_vector ''v3'' ''alice'']
        fresh_adapter))) =
     Inr [example_vector ''v3'' ''alice'', example_vector ''v1'' ''alice'']"
proof -
  have h: "store_isolated (store fresh_adapter)"
    by (simp add: fresh_adapter_def store_isolated_def)
  have q: "fst (query example_env_ready [] ''alice'' 5 (\<lambda>v. True)
      (snd (upsert example_env_ready
        [example_vector ''v1'' ''alice'', example_vector ''v2'' ''bob'', example_vector ''v3'' ''alice'']
        fresh_adapter))) =
     Inr [example_vector ''v3'' ''alice'', example_vector ''v1'' ''alice'']"
    unfolding example_upsert by code_simp
  have o: "fst (upsert example_env_ready
      [example_vector ''v1'' ''alice'', example_vector ''v2'' ''bob'', example_vector ''v3'' ''alice'']
      fresh_adapter) = Inr ()"
    unfolding example_upsert by simp
  have s: "store (snd (upsert example_env_ready
      [example_vector ''v1'' ''alice'', example_vector ''v2'' ''bob'', example_vector ''v3'' ''alice'']
      fresh_adapter)) =
     [(''user_alice'', example_vector ''v1'' ''alice''),
      (''user_alice'', example_vector ''v3'' ''alice''),
      (''user_bob'', example_vector ''v2'' ''bob'')]"
    unfolding example_upsert by simp
  from upsert_tenant_isolation [OF h, of example_env_ready
      "[example_vector ''v1'' ''alice'', example_vector ''v2'' ''bob'', example_vector ''v3'' ''alice'']"]
  have i: "store_isolated (store (snd (upsert example_env_ready
      [example_vector ''v1'' ''alice'', example_vector ''v2'' ''bob'', example_vector ''v3'' ''alice'']
      fresh_adapter)))"
    by blast
  show ?thesis by (intro conjI h o s i q)
qed

text \<open>
  C1 as stated fails for src/services/pinecone.service.ts, which has no namespaces: the
  vectors of two tenants go to the default namespace in one request, and a query returns
  both.
\<close>

theorem svc_upsert_shared_namespace_counterexample:
  "store (snd (svc_upsert example_env_ready
      [example_vector ''v1'' ''alice'', example_vector ''v2'' ''bob''] fresh_adapter)) =
     [([], example_vector ''v1'' ''alice''), ([], example_vector ''v2'' ''bob'')] \<and>
   \<not> store_isolated (store (snd (svc_upsert example_env_ready
      [example_vector ''v1'' ''alice'', example_vector ''v2'' ''bob''] fresh_adapter))) \<and>
   fst (svc_query example_env_ready [] 5 (\<lambda>v. True)
      (snd (svc_upsert example_env_ready
        [example_vector ''v1'' ''alice'', example_vector ''v2'' ''bob''] fresh_adapter))) =
     Inr [example_vector ''v2'' ''bob'', example_vector ''v1'' ''alice'']"
  by code_simp

section \<open>Properties of the pipeline\<close>


declare processChunksInBatches_from.simps [simp del]

lemma updateJobStatus_fields [simp]:
  "ledger_log (updateJobStatus job st prog err w) = ledger_log w @ [UpdateJobStatus job st prog err]"
  "fs (updateJobStatus job st prog err w) = fs w"
  "embed_log (updateJobStatus job st prog err w) = embed_log w"
  "n_uuid (updateJobStatus job st prog err w) = n_uuid w"
  "pinecone (updateJobStatus job st prog err w) = pinecone w"
  by (simp_all add: updateJobStatus_def)

lemma updateJobStatus_job:
  "jobs w job = Some j \<Longrightarrow>
   jobs (updateJobStatus job st prog err w) job =
     Some (j\<lparr>status := st, progress := prog,
             error := (case err of None \<Rightarrow> error j | Some m \<Rightarrow> if m = [] then error j else Some m)\<rparr>)"
  by (simp add: updateJobStatus_def)

text \<open>
  C4. When the clone succeeds and the walk over the working copy yields no chunk, the run
  returns successfully; the job, which was \<open>queued\<close>, is written \<open>running\<close> (progress 0, then
  the initial checkpoint) and then \<open>succeeded\<close> with progress exactly 100; nothing is sent
  to the embedding service, and the vector-store adapter is not called (its state and its
  log are unchanged).
\<close>

theorem processEmbedding_zero_chunks:
  assumes clone: "cloneRepository (git env) repo job commit (fs w) = (Inr workDir, s1)"
    and empty: "walkAndChunkDirectory workDir (worktree env workDir) 500 = []"
    and job: "jobs w job = Some j" and queued: "status j = Queued"
  shows "fst (processEmbedding env job repo user commit w) = Inr () \<and>
         ledger_log (snd (processEmbedding env job repo user commit w)) =
           ledger_log w @ [UpdateJobStatus job Running 0 None,
                           UpdateJobStatus job Running INITIAL_PROGRESS None,
                           UpdateJobStatus job Succeeded 100 None] \<and>
         jobs (snd (processEmbedding env job repo user commit w)) job =
           Some (j\<lparr>status := Succeeded, progress := 100\<rparr>) \<and>
         embed_log (snd (processEmbedding env job repo user commit w)) = embed_log w \<and>
         pinecone (snd (processEmbedding env job repo user commit w)) = pinecone w \<and>
         fs (snd (processEmbedding env job repo user commit w)) =
           cleanWorkingDirectory (git env) workDir s1"
proof -
  let ?w0 = "w\<lparr>fs := s1\<rparr>"
  let ?w1 = "updateJobStatus job Running 0 None ?w0"
  let ?w2 = "updateJobStatus job Running INITIAL_PROGRESS None ?w1"
  let ?w3 = "updateJobStatus job Succeeded FINAL_PROGRESS None ?w2"
  have steps: "embedding_steps env job repo user commit workDir ?w0 = (Inr (), ?w3)"
    using empty by (simp add: embedding_steps_def Let_def)
  have run: "processEmbedding env job repo user commit w =
               (Inr (), ?w3\<lparr>fs := cleanWorkingDirectory (git env) workDir (fs ?w3)\<rparr>)"
    using clone steps by (simp add: processEmbedding_def)
  have j0: "jobs ?w0 job = Some j" using job by simp
  have j1: "jobs ?w1 job = Some (j\<lparr>status := Running, progress := 0\<rparr>)"
    using updateJobStatus_job [OF j0, of Running 0 None] by simp
  have j2: "jobs ?w2 job = Some (j\<lparr>status := Running, progress := INITIAL_PROGRESS\<rparr>)"
    using updateJobStatus_job [OF j1, of Running INITIAL_PROGRESS None] by simp
  have j3: "jobs ?w3 job = Some (j\<lparr>status := Succeeded, progress := 100\<rparr>)"
    using updateJobStatus_job [OF j2, of Succeeded FINAL_PROGRESS None]
    by (simp add: FINAL_PROGRESS_def)
  show ?thesis
    unfolding run using j3 by (simp add: FINAL_PROGRESS_def)
qed

theorem processEmbedding_zero_chunks_witness:
  "cloneRepository (git (example_pipeline_env\<lparr>worktree := (\<lambda>d. Some [FileEntry ''README.md'' (Some ''doc'')])\<rparr>))
      ''https://host/r.git'' ''job1'' None (fs example_world) =
     (Inr ''work/job1'',
      \<lparr>dirs = {''work/job1'', ''./work''},
       fs_log = [Mkdir ''work/job1'', GitClone ''https://host/r.git'' ''work/job1'']\<rparr>) \<and>
   walkAndChunkDirectory ''work/job1''
      (worktree (example_pipeline_env\<lparr>worktree := (\<lambda>d. Some [FileEntry ''README.md'' (Some ''doc'')])\<rparr>) ''work/job1'')
      500 = [] \<and>
   jobs example_world ''job1'' = Some example_job \<and> status example_job = Queued \<and>
   fst (processEmbedding (example_pipeline_env\<lparr>worktree := (\<lambda>d. Some [FileEntry ''README.md'' (Some ''doc'')])\<rparr>)
      ''job1'' ''https://host/r.git'' ''alice'' None example_world) = Inr () \<and>
   ledger_log (snd (processEmbedding (example_pipeline_env\<lparr>worktree := (\<lambda>d. Some [FileEntry ''README.md'' (Some ''doc'')])\<rparr>)
      ''job1'' ''https://host/r.git'' ''alice'' None example_world)) =
     [UpdateJobStatus ''job1'' Running 0 None, UpdateJobStatus ''job1'' Running 10 None,
      UpdateJobStatus ''job1'' Succeeded 100 None] \<and>
   pinecone (snd (processEmbedding (example_pipeline_env\<lparr>worktree := (\<lambda>d. Some [FileEntry ''README.md'' (Some ''doc'')])\<rparr>)
      ''job1'' ''https://host/r.git'' ''alice'' None example_world)) = fresh_adapter"
proof -
  let ?env = "example_pipeline_env\<lparr>worktree := (\<lambda>d. Some [FileEntry ''README.md'' (Some ''doc'')])\<rparr>"
  have c: "cloneRepository (git ?env) ''https://host/r.git'' ''job1'' None (fs example_world) =
     (Inr ''work/job1'',
      \<lparr>dirs = {''work/job1'', ''./work''},
       fs_log = [Mkdir ''work/job1'', GitClone ''https://host/r.git'' ''work/job1'']\<rparr>)"
    by (simp add: cloneRepository_def example_pipeline_env_def example_git_def example_world_def
        example_fs_def example_workDir Let_def)
  have e: "walkAndChunkDirectory ''work/job1'' (worktree ?env ''work/job1'') 500 = []"
    by code_simp
  have j: "jobs example_world ''job1'' = Some example_job" by (simp add: example_world_def)
  have q: "status example_job = Queued" by (simp add: example_job_def)
  note t = processEmbedding_zero_chunks [OF c e j q, of "''alice''"]
  have l: "ledger_log example_world = []" "pinecone example_world = fresh_adapter"
    by (simp_all add: example_world_def)
  from t have t1: "fst (processEmbedding ?env ''job1'' ''https://host/r.git'' ''alice'' None example_world) = Inr ()"
    by (rule conjunct1)
  from t l have t2: "ledger_log (snd (processEmbedding ?env ''job1'' ''https://host/r.git'' ''alice'' None example_world)) =
     [UpdateJobStatus ''job1'' Running 0 None, UpdateJobStatus ''job1'' Running 10 None,
      UpdateJobStatus ''job1'' Succeeded 100 None]"
    by (simp add: INITIAL_PROGRESS_def)
  from t l have t3: "pinecone (snd (processEmbedding ?env ''job1'' ''https://host/r.git'' ''alice'' None example_world)) = fresh_adapter"
    by simp
  show ?thesis by (intro conjI c e j q t1 t2 t3)
qed

lemma processChunk_frame:
  "ledger_log (snd (processChunk env c repo user commit w)) = ledger_log w \<and>
   jobs (snd (processChunk env c repo user commit w)) = jobs w \<and>
   fs (snd (processChunk env c repo user commit w)) = fs w"
  by (simp add: processChunk_def Let_def split: sum.splits)

lemma promise_all_frame:
  "ledger_log (snd (promise_all env batch repo user commit w)) = ledger_log w \<and>
   jobs (snd (promise_all env batch repo user commit w)) = jobs w \<and>
   fs (snd (promise_all env batch repo user commit w)) = fs w"
proof (induction batch arbitrary: w)
  case Nil
  show ?case by simp
next
  case (Cons c batch)
  obtain r w1 where pc: "processChunk env c repo user commit w = (r, w1)"
    by (cases "processChunk env c repo user commit w")
  obtain rs w2 where pa: "promise_all env batch repo user commit w1 = (rs, w2)"
    by (cases "promise_all env batch repo user commit w1")
  have "snd (promise_all env (c # batch) repo user commit w) = w2"
    using pc pa by (simp split: sum.splits)
  moreover from processChunk_frame [of env c repo user commit w] pc
  have "ledger_log w1 = ledger_log w \<and> jobs w1 = jobs w \<and> fs w1 = fs w" by simp
  moreover from Cons.IH [of w1] pa
  have "ledger_log w2 = ledger_log w1 \<and> jobs w2 = jobs w1 \<and> fs w2 = fs w1" by simp
  ultimately show ?case by simp
qed

lemma batch_progress_mono: "0 < n \<Longrightarrow> i \<le> k \<Longrightarrow> batch_progress n i \<le> batch_progress n k"
proof -
  assume n: "0 < n" and ik: "i \<le> k"
  have "(100 - CHUNKING_PROGRESS) * int (min (i + constants_BATCH_SIZE) n)
          \<le> (100 - CHUNKING_PROGRESS) * int (min (k + constants_BATCH_SIZE) n)"
    using ik by (intro mult_left_mono) (auto simp: CHUNKING_PROGRESS_def)
  then have "((100 - CHUNKING_PROGRESS) * int (min (i + constants_BATCH_SIZE) n)) div int n
          \<le> ((100 - CHUNKING_PROGRESS) * int (min (k + constants_BATCH_SIZE) n)) div int n"
    using n by (intro zdiv_mono1) auto
  then show ?thesis by (simp add: batch_progress_def)
qed

lemma batch_progress_bounds:
  "0 < n \<Longrightarrow> CHUNKING_PROGRESS \<le> batch_progress n i \<and> batch_progress n i \<le> 100"
proof -
  assume n: "0 < n"
  let ?m = "int (min (i + constants_BATCH_SIZE) n)"
  have m: "0 \<le> ?m" "?m \<le> int n" by auto
  have "0 \<le> (70 * ?m) div int n"
    using m n by (simp add: pos_imp_zdiv_nonneg_iff)
  moreover have "(70 * ?m) div int n \<le> (70 * int n) div int n"
    using m n by (intro zdiv_mono1) auto
  moreover have "(70 * int n) div int n = 70" using n by simp
  ultimately show ?thesis by (simp add: batch_progress_def CHUNKING_PROGRESS_def)
qed

lemma batch_progress_last:
  "0 < n \<Longrightarrow> n \<le> i + constants_BATCH_SIZE \<Longrightarrow> batch_progress n i = 100"
  by (simp add: batch_progress_def CHUNKING_PROGRESS_def min_def)

lemma batches_ledger:
  assumes "processChunksInBatches_from env chunks job repo user commit i vectors w = (Inr vs, w')"
  shows "\<exists>ws. ledger_log w' = ledger_log w @ ws \<and>
               sorted (map progress_of ws) \<and>
               (\<forall>u \<in> set ws. status_of u = Running \<and> batch_progress (length chunks) i \<le> progress_of u
                   \<and> progress_of u \<le> 100) \<and>
               (i < length chunks \<longrightarrow> ws \<noteq> [] \<and> progress_of (last ws) = 100)"
  using assms
proof (induction env chunks job repo user commit i vectors w rule: processChunksInBatches_from.induct)
  case (1 env chunks job repo user commit i vectors w)
  let ?n = "length chunks"
  show ?case
  proof (cases "i < ?n")
    case False
    with "1.prems" have "w' = w"
      by (subst (asm) processChunksInBatches_from.simps) simp
    with False show ?thesis by simp
  next
    case True
    then have npos: "0 < ?n" by linarith
    let ?batch = "take constants_BATCH_SIZE (drop i chunks)"
    obtain r w1 where pa: "promise_all env ?batch repo user commit w = (r, w1)"
      by (cases "promise_all env ?batch repo user commit w")
    from "1.prems" True pa obtain bv where r: "r = Inr bv"
      by (subst (asm) processChunksInBatches_from.simps) (cases r; simp add: Let_def)
    let ?w2 = "updateProgress job CHUNKING_PROGRESS (int (i + length ?batch)) (int ?n) w1"
    have rec: "processChunksInBatches_from env chunks job repo user commit
                 (i + constants_BATCH_SIZE) (vectors @ bv) ?w2 = (Inr vs, w')"
      using "1.prems" True pa r
      by (subst (asm) processChunksInBatches_from.simps) (simp add: Let_def)
    have pa': "(r, w1) = promise_all env ?batch repo user commit w" using pa by simp
    from "1.IH" [OF True refl pa' r rec] obtain ws where
      ws: "ledger_log w' = ledger_log ?w2 @ ws" "sorted (map progress_of ws)"
        "\<forall>u \<in> set ws. status_of u = Running \<and>
            batch_progress ?n (i + constants_BATCH_SIZE) \<le> progress_of u \<and> progress_of u \<le> 100"
        "i + constants_BATCH_SIZE < ?n \<longrightarrow> ws \<noteq> [] \<and> progress_of (last ws) = 100"
      by blast
    have len: "i + length ?batch = min (i + constants_BATCH_SIZE) ?n"
      using True by (auto simp: min_def)
    let ?u = "UpdateJobStatus job Running (batch_progress ?n i) None"
    have l1: "ledger_log w1 = ledger_log w"
      using promise_all_frame [of env ?batch repo user commit w] pa by simp
    have l2: "ledger_log ?w2 = ledger_log w @ [?u]"
      unfolding updateProgress_def len by (simp add: l1 batch_progress_def)
    have le: "batch_progress ?n i \<le> batch_progress ?n (i + constants_BATCH_SIZE)"
      using npos by (intro batch_progress_mono) simp_all
    have a: "ledger_log w' = ledger_log w @ (?u # ws)" using ws(1) l2 by simp
    have b: "sorted (map progress_of (?u # ws))"
      using ws(2,3) le by (auto simp: progress_of_def)
    have c: "\<forall>u \<in> set (?u # ws). status_of u = Running \<and> batch_progress ?n i \<le> progress_of u
                   \<and> progress_of u \<le> 100"
      using ws(3) le batch_progress_bounds [OF npos, of i]
      by (auto simp: progress_of_def status_of_def)
    have d: "progress_of (last (?u # ws)) = 100"
    proof (cases "i + constants_BATCH_SIZE < ?n")
      case True
      with ws(4) show ?thesis by simp
    next
      case False
      then have "ws = [] \<or> ws \<noteq> []" by simp
      moreover have "batch_progress ?n i = 100"
        using False npos by (intro batch_progress_last) simp_all
      moreover have "ws \<noteq> [] \<Longrightarrow> progress_of (last ws) = 100"
      proof -
        assume ne: "ws \<noteq> []"
        then have "last ws \<in> set ws" by simp
        with ws(3) have "batch_progress ?n (i + constants_BATCH_SIZE) \<le> progress_of (last ws)"
          "progress_of (last ws) \<le> 100" by auto
        moreover have "batch_progress ?n (i + constants_BATCH_SIZE) = 100"
          using False npos by (intro batch_progress_last) simp_all
        ultimately show ?thesis by simp
      qed
      ultimately show ?thesis by (cases "ws = []") (simp_all add: progress_of_def)
    qed
    show ?thesis using a b c d by blast
  qed
qed

lemma upsertVectors_frame:
  "ledger_log (snd (upsertVectors env vectors w)) = ledger_log w \<and>
   jobs (snd (upsertVectors env vectors w)) = jobs w \<and>
   fs (snd (upsertVectors env vectors w)) = fs w"
  by (cases "upsert (remote env) vectors (pinecone w)") (simp add: upsertVectors_def)

lemma embedding_steps_progress:
  assumes "embedding_steps env job repo user commit workDir w = (Inr (), w')"
  shows "\<exists>writes. ledger_log w' = ledger_log w @ writes \<and> writes \<noteq> [] \<and>
           sorted (map progress_of writes) \<and>
           progress_of (last writes) = 100 \<and> status_of (last writes) = Succeeded \<and>
           (\<forall>u \<in> set (butlast writes). status_of u = Running) \<and>
           (\<forall>u \<in> set writes. 0 \<le> progress_of u \<and> progress_of u \<le> 100)"
proof -
  let ?nc = "Some (case commit of None \<Rightarrow> [] | Some c \<Rightarrow> c)"
  let ?w1 = "updateJobStatus job Running 0 None w"
  let ?w2 = "updateJobStatus job Running INITIAL_PROGRESS None ?w1"
  let ?chunks = "walkAndChunkDirectory workDir (worktree env workDir) 500"
  let ?r0 = "UpdateJobStatus job Running 0 None"
  let ?r1 = "UpdateJobStatus job Running INITIAL_PROGRESS None"
  let ?r2 = "UpdateJobStatus job Running CHUNKING_PROGRESS None"
  let ?s = "UpdateJobStatus job Succeeded FINAL_PROGRESS None"
  show ?thesis
  proof (cases "?chunks = []")
    case True
    with assms have "w' = updateJobStatus job Succeeded FINAL_PROGRESS None ?w2"
      by (simp add: embedding_steps_def Let_def)
    then have "ledger_log w' = ledger_log w @ [?r0, ?r1, ?s]" by simp
    moreover have "sorted (map progress_of [?r0, ?r1, ?s])"
      "progress_of (last [?r0, ?r1, ?s]) = 100" "status_of (last [?r0, ?r1, ?s]) = Succeeded"
      "\<forall>u \<in> set (butlast [?r0, ?r1, ?s]). status_of u = Running"
      "\<forall>u \<in> set [?r0, ?r1, ?s]. 0 \<le> progress_of u \<and> progress_of u \<le> 100"
      by (simp_all add: progress_of_def status_of_def INITIAL_PROGRESS_def FINAL_PROGRESS_def)
    ultimately show ?thesis by blast
  next
    case False
    let ?w3 = "updateJobStatus job Running CHUNKING_PROGRESS None ?w2"
    obtain r4 w4 where b: "processChunksInBatches env ?chunks job repo user ?nc ?w3 = (r4, w4)"
      by (cases "processChunksInBatches env ?chunks job repo user ?nc ?w3")
    obtain r5 w5 where u: "upsertVectors env (projr r4) w4 = (r5, w5)"
      by (cases "upsertVectors env (projr r4) w4")
    from assms False b obtain vectors where r4: "r4 = Inr vectors"
      by (cases r4) (auto simp: embedding_steps_def Let_def)
    from assms False b r4 u have r5: "r5 = Inr ()"
      by (cases r5) (auto simp: embedding_steps_def Let_def)
    from assms False b r4 u r5 have w': "w' = updateJobStatus job Succeeded FINAL_PROGRESS None w5"
      by (auto simp: embedding_steps_def Let_def)
    from b r4 have "processChunksInBatches_from env ?chunks job repo user ?nc 0 [] ?w3 = (Inr vectors, w4)"
      by (simp add: processChunksInBatches_def)
    from batches_ledger [OF this] False obtain ws where
      ws: "ledger_log w4 = ledger_log ?w3 @ ws" "sorted (map progress_of ws)"
        "\<forall>u \<in> set ws. status_of u = Running \<and>
            batch_progress (length ?chunks) 0 \<le> progress_of u \<and> progress_of u \<le> 100"
        "ws \<noteq> []" "progress_of (last ws) = 100"
      by auto
    have npos: "0 < length ?chunks" using False by simp
    have lb: "\<forall>u \<in> set ws. CHUNKING_PROGRESS \<le> progress_of u \<and> progress_of u \<le> 100"
      using ws(3) batch_progress_bounds [OF npos, of 0] by fastforce
    have l5: "ledger_log w5 = ledger_log w4"
      using upsertVectors_frame [of env "projr r4" w4] u by simp
    let ?writes = "[?r0, ?r1, ?r2] @ ws @ [?s]"
    have a: "ledger_log w' = ledger_log w @ ?writes"
      unfolding w' by (simp add: l5 ws(1))
    have srt: "sorted (map progress_of ?writes)"
      using ws(2) lb
      by (auto simp: sorted_append progress_of_def INITIAL_PROGRESS_def CHUNKING_PROGRESS_def
          FINAL_PROGRESS_def)
    have lst: "progress_of (last ?writes) = 100" "status_of (last ?writes) = Succeeded"
      by (simp_all add: progress_of_def status_of_def FINAL_PROGRESS_def)
    have bl: "butlast ?writes = [?r0, ?r1, ?r2] @ ws"
      by (simp add: butlast_append)
    have run: "\<forall>u \<in> set (butlast ?writes). status_of u = Running"
      unfolding bl using ws(3) by (auto simp: status_of_def)
    have rng: "\<forall>u \<in> set ?writes. 0 \<le> progress_of u \<and> progress_of u \<le> 100"
      using lb
      by (auto simp: progress_of_def INITIAL_PROGRESS_def CHUNKING_PROGRESS_def FINAL_PROGRESS_def)
    have ne: "?writes \<noteq> []" by simp
    show ?thesis using a ne srt lst run rng by blast
  qed
qed

text \<open>
  C5. In every successful run, the progress values written to the job are non-decreasing
  and lie between 0 and 100; the last write is \<open>succeeded\<close> with progress exactly 100, and
  every write before it has status \<open>running\<close>.
\<close>

theorem processEmbedding_progress_monotone:
  assumes "fst (processEmbedding env job repo user commit w) = Inr ()"
  shows "\<exists>writes. ledger_log (snd (processEmbedding env job repo user commit w)) =
             ledger_log w @ writes \<and>
           writes \<noteq> [] \<and> sorted (map progress_of writes) \<and>
           progress_of (last writes) = 100 \<and> status_of (last writes) = Succeeded \<and>
           (\<forall>u \<in> set (butlast writes). status_of u = Running) \<and>
           (\<forall>u \<in> set writes. 0 \<le> progress_of u \<and> progress_of u \<le> 100)"
proof -
  obtain rc s1 where c: "cloneRepository (git env) repo job commit (fs w) = (rc, s1)"
    by (cases "cloneRepository (git env) repo job commit (fs w)")
  from assms c obtain workDir where rc: "rc = Inr workDir"
    by (cases rc) (auto simp: processEmbedding_def)
  obtain r w1 where st: "embedding_steps env job repo user commit workDir (w\<lparr>fs := s1\<rparr>) = (r, w1)"
    by (cases "embedding_steps env job repo user commit workDir (w\<lparr>fs := s1\<rparr>)")
  from assms c rc st have r: "r = Inr ()"
    by (simp add: processEmbedding_def Let_def)
  have "snd (processEmbedding env job repo user commit w) =
          w1\<lparr>fs := cleanWorkingDirectory (git env) workDir (fs w1)\<rparr>"
    using c rc st r by (simp add: processEmbedding_def Let_def)
  then have l: "ledger_log (snd (processEmbedding env job repo user commit w)) = ledger_log w1"
    by simp
  from embedding_steps_progress [of env job repo user commit workDir "w\<lparr>fs := s1\<rparr>" w1] st r
  show ?thesis unfolding l by simp
qed

theorem processEmbedding_progress_monotone_witness:
  "fst (processEmbedding example_pipeline_env ''job1'' ''https://host/r.git'' ''alice'' None example_world)
     = Inr () \<and>
   map progress_of (ledger_log (snd (processEmbedding example_pipeline_env ''job1''
      ''https://host/r.git'' ''alice'' None example_world))) = [0, 10, 30, 100, 100] \<and>
   sorted [0, 10, 30, 100, 100 :: int]"
proof -
  let ?run = "processEmbedding example_pipeline_env ''job1'' ''https://host/r.git'' ''alice'' None example_world"
  have ok: "fst ?run = Inr ()"
    by code_simp
  have lg: "ledger_log (snd ?run) =
       [UpdateJobStatus ''job1'' Running 0 None, UpdateJobStatus ''job1'' Running 10 None,
        UpdateJobStatus ''job1'' Running 30 None, UpdateJobStatus ''job1'' Running 100 None,
        UpdateJobStatus ''job1'' Succeeded 100 None]"
    by code_simp
  from processEmbedding_progress_monotone [OF ok] obtain writes where
    w: "ledger_log (snd ?run) = ledger_log example_world @ writes"
      "sorted (map progress_of writes)"
    by blast
  have "ledger_log example_world = []" by (simp add: example_world_def)
  with w(1) lg have "writes =
       [UpdateJobStatus ''job1'' Running 0 None, UpdateJobStatus ''job1'' Running 10 None,
        UpdateJobStatus ''job1'' Running 30 None, UpdateJobStatus ''job1'' Running 100 None,
        UpdateJobStatus ''job1'' Succeeded 100 None]"
    by simp
  with w(2) have s: "sorted [0, 10, 30, 100, 100 :: int]"
    by (simp add: progress_of_def)
  have m: "map progress_of (ledger_log (snd ?run)) = [0, 10, 30, 100, 100]"
    unfolding lg by (simp add: progress_of_def)
  show ?thesis by (intro conjI ok m s)
qed

lemma updateJobStatus_keeps_job:
  "jobs w job \<noteq> None \<Longrightarrow> jobs (updateJobStatus job' st prog err w) job \<noteq> None"
  by (auto simp: updateJobStatus_def split: option.splits)

lemma batches_keep_job:
  "jobs w jb \<noteq> None \<Longrightarrow>
   jobs (snd (processChunksInBatches_from env chunks job repo user commit i vectors w)) jb \<noteq> None \<and>
   fs (snd (processChunksInBatches_from env chunks job repo user commit i vectors w)) = fs w"
proof (induction env chunks job repo user commit i vectors w rule: processChunksInBatches_from.induct)
  case (1 env chunks job repo user commit i vectors w)
  show ?case
  proof (cases "i < length chunks")
    case False
    with "1.prems" show ?thesis
      by (subst (1 2) processChunksInBatches_from.simps) simp
  next
    case True
    let ?batch = "take constants_BATCH_SIZE (drop i chunks)"
    obtain r w1 where pa: "promise_all env ?batch repo user commit w = (r, w1)"
      by (cases "promise_all env ?batch repo user commit w")
    have f1: "jobs w1 = jobs w" "fs w1 = fs w"
      using promise_all_frame [of env ?batch repo user commit w] pa by simp_all
    show ?thesis
    proof (cases r)
      case (Inl e)
      have "processChunksInBatches_from env chunks job repo user commit i vectors w = (Inl e, w1)"
        using True pa Inl by (subst processChunksInBatches_from.simps) (simp add: Let_def)
      then show ?thesis using f1 "1.prems" by simp
    next
      case (Inr bv)
      let ?w2 = "updateProgress job CHUNKING_PROGRESS (int (i + length ?batch)) (int (length chunks)) w1"
      have e: "processChunksInBatches_from env chunks job repo user commit i vectors w =
          processChunksInBatches_from env chunks job repo user commit
                 (i + constants_BATCH_SIZE) (vectors @ bv) ?w2"
        using True pa Inr by (subst processChunksInBatches_from.simps) (simp add: Let_def)
      have j2: "jobs ?w2 jb \<noteq> None"
        using "1.prems" f1 by (simp add: updateProgress_def updateJobStatus_keeps_job)
      have pa': "(r, w1) = promise_all env ?batch repo user commit w" using pa by simp
      from "1.IH" [OF True refl pa' Inr j2] show ?thesis
        unfolding e using f1 by (simp add: updateProgress_def)
    qed
  qed
qed

lemma embedding_steps_keep_job:
  assumes "jobs w jb \<noteq> None"
  shows "jobs (snd (embedding_steps env job repo user commit workDir w)) jb \<noteq> None \<and>
         fs (snd (embedding_steps env job repo user commit workDir w)) = fs w"
proof -
  let ?nc = "Some (case commit of None \<Rightarrow> [] | Some c \<Rightarrow> c)"
  let ?w1 = "updateJobStatus job Running 0 None w"
  let ?w2 = "updateJobStatus job Running INITIAL_PROGRESS None ?w1"
  let ?w3 = "updateJobStatus job Running CHUNKING_PROGRESS None ?w2"
  let ?chunks = "walkAndChunkDirectory workDir (worktree env workDir) 500"
  have j2: "jobs ?w2 jb \<noteq> None" using assms by (simp add: updateJobStatus_keeps_job)
  have j3: "jobs ?w3 jb \<noteq> None" using j2 by (simp add: updateJobStatus_keeps_job)
  obtain r4 w4 where b: "processChunksInBatches env ?chunks job repo user ?nc ?w3 = (r4, w4)"
    by (cases "processChunksInBatches env ?chunks job repo user ?nc ?w3")
  from batches_keep_job [OF j3, of env ?chunks job repo user ?nc 0 "[]"] b
  have j4: "jobs w4 jb \<noteq> None" "fs w4 = fs w"
    by (simp_all add: processChunksInBatches_def)
  obtain r5 w5 where u: "upsertVectors env (projr r4) w4 = (r5, w5)"
    by (cases "upsertVectors env (projr r4) w4")
  from upsertVectors_frame [of env "projr r4" w4] u j4
  have j5: "jobs w5 jb \<noteq> None" "fs w5 = fs w" by simp_all
  show ?thesis
  proof (cases "?chunks = []")
    case True
    then show ?thesis using j2 by (simp add: embedding_steps_def Let_def updateJobStatus_keeps_job)
  next
    case False
    show ?thesis
    proof (cases r4)
      case (Inl e)
      with False b j4 show ?thesis by (simp add: embedding_steps_def Let_def)
    next
      case (Inr vectors)
      with False b u j5 show ?thesis
        by (cases r5) (simp_all add: embedding_steps_def Let_def updateJobStatus_keeps_job)
    qed
  qed
qed

text \<open>
  A failure of a stage inside the \<open>try\<close> of \<open>processEmbedding\<close> (embedding, upsert) is
  recorded: the job becomes \<open>failed\<close> with progress 0 and a non-empty error message, and
  the working directory is cleaned afterwards.
\<close>

lemma processEmbedding_failure_recorded:
  assumes clone: "cloneRepository (git env) repo job commit (fs w) = (Inr workDir, s1)"
    and fail: "fst (processEmbedding env job repo user commit w) = Inl e"
    and job: "jobs w job = Some j"
  shows "\<exists>j'. jobs (snd (processEmbedding env job repo user commit w)) job = Some j' \<and>
           status j' = Failed \<and> progress j' = 0 \<and>
           error j' = Some (message_or e ''Unknown error during embedding process'') \<and>
           message_or e ''Unknown error during embedding process'' \<noteq> [] \<and>
           fs (snd (processEmbedding env job repo user commit w)) =
             cleanWorkingDirectory (git env) workDir s1"
proof -
  let ?w0 = "w\<lparr>fs := s1\<rparr>"
  obtain r w1 where st: "embedding_steps env job repo user commit workDir ?w0 = (r, w1)"
    by (cases "embedding_steps env job repo user commit workDir ?w0")
  from fail clone st have r: "r = Inl e" by (simp add: processEmbedding_def Let_def)
  have "jobs ?w0 job \<noteq> None" using job by simp
  from embedding_steps_keep_job [OF this, of env job repo user commit workDir] st
  obtain j1 where j1: "jobs w1 job = Some j1" and f1: "fs w1 = s1" by auto
  let ?m = "message_or e ''Unknown error during embedding process''"
  have m: "?m \<noteq> []" by (simp add: message_or_def)
  let ?w2 = "updateJobStatus job Failed 0 (Some ?m) w1"
  have run: "snd (processEmbedding env job repo user commit w) =
               ?w2\<lparr>fs := cleanWorkingDirectory (git env) workDir (fs ?w2)\<rparr>"
    using clone st r by (simp add: processEmbedding_def Let_def)
  have "jobs ?w2 job = Some (j1\<lparr>status := Failed, progress := 0, error := Some ?m\<rparr>)"
    using updateJobStatus_job [OF j1, of Failed 0 "Some ?m"] m by simp
  then show ?thesis unfolding run using m f1 by simp
qed

text \<open>
  C3 does not hold for \<open>processEmbedding\<close> when the failing stage is the acquisition of the
  working copy: \<open>cloneRepository\<close> is awaited before the \<open>try\<close>, so its error leaves the
  function without any write to the ledger, and the job stays \<open>queued\<close> with no error
  message. The pipeline inside the request handler, where the clone is inside the \<open>try\<close>,
  marks the same job \<open>failed\<close> with the error's message.
\<close>

theorem processEmbedding_clone_failure_unrecorded:
  "fst (processEmbedding example_env_clone_fails ''job1'' ''https://host/r.git'' ''alice'' None example_world)
     = Inl (JsError None ''repository not found'') \<and>
   jobs (snd (processEmbedding example_env_clone_fails ''job1'' ''https://host/r.git'' ''alice'' None
      example_world)) ''job1'' = Some example_job \<and>
   status example_job = Queued \<and> error example_job = None \<and>
   ledger_log (snd (processEmbedding example_env_clone_fails ''job1'' ''https://host/r.git'' ''alice''
      None example_world)) = [] \<and>
   jobs (handler_pipeline example_env_clone_fails ''job1'' ''https://host/r.git'' ''alice'' None
      example_world) ''job1'' =
     Some (example_job\<lparr>status := Failed, progress := 0, error := Some ''repository not found''\<rparr>)"
  by code_simp

end
